theory Spec2Isabelle
  imports Main "HOL-Library.Word" "HOL-Library.Multiset" "HOL-Library.Monad_Syntax"
begin

section \<open>Go slices over an explicit heap\<close>

text \<open>
  A Go slice is a header (pointer, length, capacity) onto a backing array that other
  slices may share. The pointer is modelled as the address of the first element the slice
  spans (\<open>None\<close> is the nil pointer); the heap maps such an address to the elements stored
  from there on. Two kinds of arrays occur in the program: arrays of bytes (\<open>[]byte\<close>,
  the type \<open>Payload\<close>) and arrays of slice headers (\<open>[]Payload\<close>).
\<close>

type_synonym addr = nat
type_synonym byte = "8 word"

record slice =
  sl_ptr :: "addr option"
  sl_len :: nat
  sl_cap :: nat

type_synonym Payload = slice

type_synonym 'a arrays = "addr \<Rightarrow> 'a list option"

definition nil_slice :: slice where
  "nil_slice = \<lparr>sl_ptr = None, sl_len = 0, sl_cap = 0\<rparr>"

text \<open>The elements \<open>s[0], ..., s[len(s)-1]\<close> as a list (a read of the whole slice).\<close>

definition elems :: "'a arrays \<Rightarrow> slice \<Rightarrow> 'a list" where
  "elems A s =
     (case sl_ptr s of
        None \<Rightarrow> []
      | Some a \<Rightarrow> (case A a of None \<Rightarrow> [] | Some xs \<Rightarrow> take (sl_len s) xs))"

text \<open>\<open>s[i]\<close>: Go panics when \<open>i\<close> is not below \<open>len(s)\<close>; \<open>None\<close> is the panic.\<close>

definition index_sl :: "'a arrays \<Rightarrow> slice \<Rightarrow> nat \<Rightarrow> 'a option" where
  "index_sl A s i =
     (if i < sl_len s then
        (case sl_ptr s of
           None \<Rightarrow> None
         | Some a \<Rightarrow>
             (case A a of
                None \<Rightarrow> None
              | Some xs \<Rightarrow> if i < length xs then Some (xs ! i) else None))
      else None)"

text \<open>\<open>s[i] = v\<close>, with the same bounds check.\<close>

definition store_sl :: "'a arrays \<Rightarrow> slice \<Rightarrow> nat \<Rightarrow> 'a \<Rightarrow> 'a arrays option" where
  "store_sl A s i v =
     (if i < sl_len s then
        (case sl_ptr s of
           None \<Rightarrow> None
         | Some a \<Rightarrow>
             (case A a of
                None \<Rightarrow> None
              | Some xs \<Rightarrow> if i < length xs then Some (A(a \<mapsto> xs[i := v])) else None))
      else None)"

text \<open>
  The builtin \<open>copy(dst, src)\<close>: copies \<open>min(len(dst), len(src))\<close> elements to the front
  of \<open>dst\<close>'s array and leaves the rest of that array as it was.
\<close>

definition copy_sl :: "'a arrays \<Rightarrow> slice \<Rightarrow> slice \<Rightarrow> 'a arrays" where
  "copy_sl A dst src =
     (let n = min (sl_len dst) (sl_len src) in
      case sl_ptr dst of
        None \<Rightarrow> A
      | Some a \<Rightarrow>
          (case A a of
             None \<Rightarrow> A
           | Some old \<Rightarrow> A(a \<mapsto> take n (elems A src) @ drop n old)))"

record heap =
  byte_arrays :: "byte arrays"
  payload_arrays :: "Payload arrays"
  next_addr :: addr

text \<open>\<open>make([]byte, n)\<close> and \<open>make([]Payload, n)\<close>: a fresh zeroed array.\<close>

definition make_bytes :: "heap \<Rightarrow> nat \<Rightarrow> slice \<times> heap" where
  "make_bytes h n =
     (\<lparr>sl_ptr = Some (next_addr h), sl_len = n, sl_cap = n\<rparr>,
      h\<lparr>byte_arrays := (byte_arrays h)(next_addr h \<mapsto> replicate n 0),
        next_addr := Suc (next_addr h)\<rparr>)"

definition make_payloads :: "heap \<Rightarrow> nat \<Rightarrow> slice \<times> heap" where
  "make_payloads h n =
     (\<lparr>sl_ptr = Some (next_addr h), sl_len = n, sl_cap = n\<rparr>,
      h\<lparr>payload_arrays := (payload_arrays h)(next_addr h \<mapsto> replicate n nil_slice),
        next_addr := Suc (next_addr h)\<rparr>)"

text \<open>
  A slice is valid in a store when its array is allocated and long enough for its
  capacity; the nil slice has length and capacity 0. A heap is well formed when every
  allocated address lies below the allocation pointer.
\<close>

definition valid_slice :: "'a arrays \<Rightarrow> slice \<Rightarrow> bool" where
  "valid_slice A s =
     (case sl_ptr s of
        None \<Rightarrow> sl_len s = 0 \<and> sl_cap s = 0
      | Some a \<Rightarrow>
          (case A a of
             None \<Rightarrow> False
           | Some xs \<Rightarrow> sl_len s \<le> sl_cap s \<and> sl_cap s \<le> length xs))"

definition heap_ok :: "heap \<Rightarrow> bool" where
  "heap_ok h =
     (dom (byte_arrays h) \<subseteq> {..<next_addr h} \<and> dom (payload_arrays h) \<subseteq> {..<next_addr h})"

section \<open>Connections (go/network/connection.go)\<close>

text \<open>
  \<open>net.IP\<close> is a \<open>[]byte\<close>: an address is a slice, and the addresses a connection
  holds alias whatever array they were taken from. Ports are \<open>uint16\<close>; \<open>time.Time\<close>
  is a reading of a clock, a natural number here.
\<close>

type_synonym IP = slice
type_synonym time = nat

record ConnectionKey =
  key_SrcIP :: string
  key_DstIP :: string
  key_SrcPort :: "16 word"
  key_DstPort :: "16 word"

record Connection =
  SrcIP :: IP
  DstIP :: IP
  SrcPort :: "16 word"
  DstPort :: "16 word"
  StartTime :: time
  LastSeen :: time
  IncomingData :: slice
  IsFinished :: bool

subsection \<open>GetIncomingDataSortedByLength\<close>

text \<open>
  The inner loop \<open>for j := i + 1; j < len(sortedPackets); j++\<close>, entered at \<open>j\<close>: it
  swaps \<open>sortedPackets[i]\<close> and \<open>sortedPackets[j]\<close> when the first is strictly shorter.
\<close>

function sort_inner_loop :: "Payload arrays \<Rightarrow> slice \<Rightarrow> nat \<Rightarrow> nat \<Rightarrow> Payload arrays option" where
  "sort_inner_loop A s i j =
     (if j < sl_len s then
        do {
          x \<leftarrow> index_sl A s i;
          y \<leftarrow> index_sl A s j;
          if sl_len x < sl_len y then
            do {
              A1 \<leftarrow> store_sl A s i y;
              A2 \<leftarrow> store_sl A1 s j x;
              sort_inner_loop A2 s i (Suc j)
            }
          else sort_inner_loop A s i (Suc j)
        }
      else Some A)"
  by pat_completeness auto
termination
  by (relation "measure (\<lambda>(A, s, i, j). sl_len s - j)") auto

text \<open>The outer loop \<open>for i := 0; i < len(sortedPackets)-1; i++\<close>, entered at \<open>i\<close>.\<close>

function sort_outer_loop :: "Payload arrays \<Rightarrow> slice \<Rightarrow> nat \<Rightarrow> Payload arrays option" where
  "sort_outer_loop A s i =
     (if int i < int (sl_len s) - 1 then
        do {
          A1 \<leftarrow> sort_inner_loop A s i (Suc i);
          sort_outer_loop A1 s (Suc i)
        }
      else Some A)"
  by pat_completeness auto
termination
  by (relation "measure (\<lambda>(A, s, i). sl_len s - i)") auto

declare sort_inner_loop.simps [simp del] sort_outer_loop.simps [simp del]

definition GetIncomingDataSortedByLength :: "heap \<Rightarrow> Connection \<Rightarrow> (slice \<times> heap) option" where
  "GetIncomingDataSortedByLength h c =
     (if sl_len (IncomingData c) = 0 then Some (nil_slice, h)
      else
        (let (sortedPackets, h1) = make_payloads h (sl_len (IncomingData c));
             h2 = h1\<lparr>payload_arrays := copy_sl (payload_arrays h1) sortedPackets (IncomingData c)\<rparr>
         in do {
           A \<leftarrow> sort_outer_loop (payload_arrays h2) sortedPackets 0;
           Some (sortedPackets, h2\<lparr>payload_arrays := A\<rparr>)
         }))"

subsection \<open>Connection.Key\<close>

text \<open>
  \<open>net.IP.String()\<close> reads the address bytes. For four bytes it is the dotted-decimal
  form; for none it is \<open><nil>\<close>; for a length other than 0, 4 and 16 it is a question
  mark and the bytes in hexadecimal. (For 16 bytes Go prints the IPv6 text form, which is
  not written out here: gopacket's IPv4 layer only hands out 4-byte addresses.) \<open>dec\<close>
  is the decimal numeral of a natural number (no sign, no leading zeros).
\<close>

fun dec :: "nat \<Rightarrow> string" where
  "dec n = (if n < 10 then [char_of (48 + n)] else dec (n div 10) @ [char_of (48 + n mod 10)])"

declare dec.simps [simp del]

definition hexDigit :: "nat \<Rightarrow> char" where
  "hexDigit n = (if n < 10 then char_of (48 + n) else char_of (87 + n))"

definition hexString :: "byte list \<Rightarrow> string" where
  "hexString bs = concat (map (\<lambda>b. [hexDigit (unat b div 16), hexDigit (unat b mod 16)]) bs)"

definition IP_text :: "byte list \<Rightarrow> string" where
  "IP_text bs =
     (if length bs = 0 then ''<nil>''
      else if length bs = 4 then
        dec (unat (bs ! 0)) @ ''.'' @ dec (unat (bs ! 1)) @ ''.'' @ dec (unat (bs ! 2)) @ ''.''
          @ dec (unat (bs ! 3))
      else ''?'' @ hexString bs)"

definition IP_String :: "byte arrays \<Rightarrow> IP \<Rightarrow> string" where
  "IP_String A x = IP_text (elems A x)"

definition Key :: "byte arrays \<Rightarrow> Connection \<Rightarrow> ConnectionKey" where
  "Key A c = \<lparr>key_SrcIP = IP_String A (SrcIP c), key_DstIP = IP_String A (DstIP c),
              key_SrcPort = SrcPort c, key_DstPort = DstPort c\<rparr>"

section \<open>The capture service (go/network, the packet capture service)\<close>

text \<open>
  What \<open>handlePacket\<close> reads of a \<open>gopacket.Packet\<close>: its IPv4 layer and its TCP layer,
  each absent (\<open>packet.Layer\<close> returns nil) or present. The two addresses and the TCP
  payload are slices into the capture buffer.
\<close>

record IPv4 =
  ipv4_SrcIP :: IP
  ipv4_DstIP :: IP

record TCP =
  tcp_SrcPort :: "16 word"
  tcp_DstPort :: "16 word"
  tcp_FIN :: bool
  tcp_RST :: bool
  tcp_Payload :: slice

record Packet =
  LayerTypeIPv4 :: "IPv4 option"
  LayerTypeTCP :: "TCP option"

text \<open>
  The service: the configured address and port, the cancellation state of its context,
  the flow table, and the values sent on \<open>connCloseNotifyChannel\<close> that no receiver has
  taken yet. The table maps a key to the connection its pointer refers to; each pointer is
  stored under one key only.
\<close>

record PacketCaptureService =
  ip :: string
  port :: int
  ctx_done :: bool
  connections :: "ConnectionKey \<Rightarrow> Connection option"
  connCloseNotifyChannel :: "Connection list"

text \<open>
  The rest of the machine: the heap, the clock (\<open>clock n\<close> is what the \<open>n\<close>-th call of
  \<open>time.Now()\<close> returns) and the capacity Go's runtime picks when \<open>append\<close> has to grow
  an array of a given capacity (left open by the language; at least the length needed).
\<close>

record runtime =
  mem :: heap
  clock :: "nat \<Rightarrow> time"
  clock_reads :: nat
  growslice :: "nat \<Rightarrow> nat"

definition time_Now :: "runtime \<Rightarrow> time \<times> runtime" where
  "time_Now rt = (clock rt (clock_reads rt), rt\<lparr>clock_reads := Suc (clock_reads rt)\<rparr>)"

text \<open>
  \<open>append(s, x)\<close> on a \<open>[]Payload\<close>: in place when the capacity allows, otherwise into a
  fresh array that receives the old elements first.
\<close>

definition append_payload :: "(nat \<Rightarrow> nat) \<Rightarrow> heap \<Rightarrow> slice \<Rightarrow> Payload \<Rightarrow> slice \<times> heap" where
  "append_payload grow h s x =
     (if sl_len s < sl_cap s then
        (s\<lparr>sl_len := Suc (sl_len s)\<rparr>,
         (case sl_ptr s of
            None \<Rightarrow> h
          | Some a \<Rightarrow>
              (case payload_arrays h a of
                 None \<Rightarrow> h
               | Some xs \<Rightarrow> h\<lparr>payload_arrays := (payload_arrays h)(a \<mapsto> xs[sl_len s := x])\<rparr>)))
      else
        (let newcap = max (Suc (sl_len s)) (grow (sl_cap s)) in
         (\<lparr>sl_ptr = Some (next_addr h), sl_len = Suc (sl_len s), sl_cap = newcap\<rparr>,
          h\<lparr>payload_arrays := (payload_arrays h)(next_addr h \<mapsto>
                elems (payload_arrays h) s @ [x] @ replicate (newcap - Suc (sl_len s)) nil_slice),
            next_addr := Suc (next_addr h)\<rparr>)))"

text \<open>\<open>layers.TCPPort(pcs.port)\<close>: the conversion of an \<open>int\<close> to \<open>uint16\<close> keeps the low 16 bits.\<close>

definition TCPPort :: "int \<Rightarrow> 16 word" where
  "TCPPort n = word_of_int n"

definition handlePacket ::
  "PacketCaptureService \<Rightarrow> runtime \<Rightarrow> Packet \<Rightarrow> PacketCaptureService \<times> runtime" where
  "handlePacket pcs rt packet =
     (case LayerTypeIPv4 packet of
        None \<Rightarrow> (pcs, rt)
      | Some ipl \<Rightarrow>
     (case LayerTypeTCP packet of
        None \<Rightarrow> (pcs, rt)
      | Some tcp \<Rightarrow>
     if IP_String (byte_arrays (mem rt)) (ipv4_SrcIP ipl) \<noteq> ip pcs
        \<or> tcp_SrcPort tcp \<noteq> TCPPort (port pcs) then (pcs, rt)
     else
       (let conn = \<lparr>SrcIP = ipv4_SrcIP ipl, DstIP = ipv4_DstIP ipl,
                     SrcPort = tcp_SrcPort tcp, DstPort = tcp_DstPort tcp,
                     StartTime = 0, LastSeen = 0, IncomingData = nil_slice, IsFinished = False\<rparr>;
            key = Key (byte_arrays (mem rt)) conn;
            (existingConn, rt1) =
              (case connections pcs key of
                 Some existing \<Rightarrow> (existing, rt)
               | None \<Rightarrow>
                   (let (t1, r1) = time_Now rt; (t2, r2) = time_Now r1
                    in (conn\<lparr>StartTime := t1, LastSeen := t2\<rparr>, r2)));
            (t3, rt2) = time_Now rt1;
            existingConn1 = existingConn\<lparr>LastSeen := t3\<rparr>;
            payload = tcp_Payload tcp;
            (existingConn2, rt3) =
              (if 0 < sl_len payload then
                 (let (data, h1) = make_bytes (mem rt2) (sl_len payload);
                      h2 = h1\<lparr>byte_arrays := copy_sl (byte_arrays h1) data payload\<rparr>;
                      (incoming, h3) = append_payload (growslice rt2) h2 (IncomingData existingConn1) data
                  in (existingConn1\<lparr>IncomingData := incoming\<rparr>, rt2\<lparr>mem := h3\<rparr>))
               else (existingConn1, rt2));
            pcs1 = pcs\<lparr>connections := (connections pcs)(key \<mapsto> existingConn2)\<rparr>;
            pcs2 = (if tcp_FIN tcp \<or> tcp_RST tcp then pcs1 else pcs1)
        in (pcs2, rt3))))"

text \<open>The frames one capture loop hands to \<open>handlePacket\<close>, in arrival order.\<close>

fun handlePackets ::
  "PacketCaptureService \<Rightarrow> runtime \<Rightarrow> Packet list \<Rightarrow> PacketCaptureService \<times> runtime" where
  "handlePackets pcs rt [] = (pcs, rt)"
| "handlePackets pcs rt (p # ps) = (case handlePacket pcs rt p of (pcs', rt') \<Rightarrow> handlePackets pcs' rt' ps)"

text \<open>Reading a decimal numeral back (used to show that \<open>dec\<close> is injective).\<close>

definition undec :: "string \<Rightarrow> nat" where
  "undec s = foldl (\<lambda>a c. 10 * a + (of_char c - 48)) 0 s"

subsection \<open>Notions used to state the properties of the flow table\<close>

text \<open>The key \<open>handlePacket\<close> derives from a frame's IPv4 and TCP layers.\<close>

definition flow_key :: "byte arrays \<Rightarrow> IPv4 \<Rightarrow> TCP \<Rightarrow> ConnectionKey" where
  "flow_key A ipl tcp =
     \<lparr>key_SrcIP = IP_String A (ipv4_SrcIP ipl), key_DstIP = IP_String A (ipv4_DstIP ipl),
      key_SrcPort = tcp_SrcPort tcp, key_DstPort = tcp_DstPort tcp\<rparr>"

definition packet_key :: "byte arrays \<Rightarrow> Packet \<Rightarrow> ConnectionKey option" where
  "packet_key A p =
     (case LayerTypeIPv4 p of
        None \<Rightarrow> None
      | Some ipl \<Rightarrow> (case LayerTypeTCP p of None \<Rightarrow> None | Some tcp \<Rightarrow> Some (flow_key A ipl tcp)))"

definition packet_payload :: "Packet \<Rightarrow> slice" where
  "packet_payload p = (case LayerTypeTCP p of None \<Rightarrow> nil_slice | Some tcp \<Rightarrow> tcp_Payload tcp)"

text \<open>
  A frame's slices are valid in a heap: both addresses (when there is an IPv4 layer) and
  the payload lie in allocated arrays.
\<close>

definition packet_ok :: "heap \<Rightarrow> Packet \<Rightarrow> bool" where
  "packet_ok h p =
     ((case LayerTypeIPv4 p of
         None \<Rightarrow> True
       | Some ipl \<Rightarrow> valid_slice (byte_arrays h) (ipv4_SrcIP ipl)
                    \<and> valid_slice (byte_arrays h) (ipv4_DstIP ipl))
      \<and> valid_slice (byte_arrays h) (packet_payload p))"

text \<open>The three guards of \<open>handlePacket\<close>, as the code compares.\<close>

definition accepts :: "PacketCaptureService \<Rightarrow> byte arrays \<Rightarrow> Packet \<Rightarrow> bool" where
  "accepts pcs A p =
     (case LayerTypeIPv4 p of
        None \<Rightarrow> False
      | Some ipl \<Rightarrow>
          (case LayerTypeTCP p of
             None \<Rightarrow> False
           | Some tcp \<Rightarrow>
               IP_String A (ipv4_SrcIP ipl) = ip pcs \<and> tcp_SrcPort tcp = TCPPort (port pcs)))"

text \<open>
  The specification's condition: the frame is IPv4 and TCP, its source address is the
  configured address and its source port, as a number, is the configured port.
\<close>

definition from_target :: "PacketCaptureService \<Rightarrow> byte arrays \<Rightarrow> Packet \<Rightarrow> bool" where
  "from_target pcs A p =
     (case LayerTypeIPv4 p of
        None \<Rightarrow> False
      | Some ipl \<Rightarrow>
          (case LayerTypeTCP p of
             None \<Rightarrow> False
           | Some tcp \<Rightarrow>
               IP_String A (ipv4_SrcIP ipl) = ip pcs \<and> uint (tcp_SrcPort tcp) = port pcs))"

text \<open>The bytes of the chunks a connection holds, chunk by chunk.\<close>

definition chunk_bytes :: "heap \<Rightarrow> Connection \<Rightarrow> byte list list" where
  "chunk_bytes h c = map (elems (byte_arrays h)) (elems (payload_arrays h) (IncomingData c))"

text \<open>
  Well-formedness of a flow table over a heap: the heap is well formed; every record's
  chunk slice is valid and so is every chunk in it; and no two records share a chunk
  array.
\<close>

definition conn_ok :: "heap \<Rightarrow> Connection \<Rightarrow> bool" where
  "conn_ok h c =
     (valid_slice (payload_arrays h) (IncomingData c) \<and>
      (\<forall>p \<in> set (elems (payload_arrays h) (IncomingData c)). valid_slice (byte_arrays h) p))"

definition table_ok :: "PacketCaptureService \<Rightarrow> heap \<Rightarrow> bool" where
  "table_ok pcs h =
     (heap_ok h \<and>
      (\<forall>k c. connections pcs k = Some c \<longrightarrow> conn_ok h c) \<and>
      (\<forall>k k' c c'. connections pcs k = Some c \<and> connections pcs k' = Some c' \<and> k \<noteq> k' \<longrightarrow>
          sl_ptr (IncomingData c) = None \<or> sl_ptr (IncomingData c) \<noteq> sl_ptr (IncomingData c')))"

text \<open>
  The two halves of the accepted path of \<open>handlePacket\<close>, named for the proofs: looking the
  record up (or creating it) and stamping \<open>LastSeen\<close>; then recording the payload.
\<close>

definition touch :: "PacketCaptureService \<Rightarrow> runtime \<Rightarrow> IPv4 \<Rightarrow> TCP \<Rightarrow> Connection \<times> runtime" where
  "touch pcs rt ipl tcp =
     (case connections pcs (flow_key (byte_arrays (mem rt)) ipl tcp) of
        Some existing \<Rightarrow>
          (existing\<lparr>LastSeen := clock rt (clock_reads rt)\<rparr>, rt\<lparr>clock_reads := Suc (clock_reads rt)\<rparr>)
      | None \<Rightarrow>
          (\<lparr>SrcIP = ipv4_SrcIP ipl, DstIP = ipv4_DstIP ipl,
            SrcPort = tcp_SrcPort tcp, DstPort = tcp_DstPort tcp,
            StartTime = clock rt (clock_reads rt), LastSeen = clock rt (Suc (Suc (clock_reads rt))),
            IncomingData = nil_slice, IsFinished = False\<rparr>,
           rt\<lparr>clock_reads := Suc (Suc (Suc (clock_reads rt)))\<rparr>))"

definition record_payload :: "runtime \<Rightarrow> Connection \<Rightarrow> slice \<Rightarrow> Connection \<times> runtime" where
  "record_payload rt c payload =
     (if 0 < sl_len payload then
        (let (data, h1) = make_bytes (mem rt) (sl_len payload);
             h2 = h1\<lparr>byte_arrays := copy_sl (byte_arrays h1) data payload\<rparr>;
             (incoming, h3) = append_payload (growslice rt) h2 (IncomingData c) data
         in (c\<lparr>IncomingData := incoming\<rparr>, rt\<lparr>mem := h3\<rparr>))
      else (c, rt))"

text \<open>What the table holds under a key before a frame is handled (nothing when the key is new).\<close>

definition old_incoming :: "PacketCaptureService \<Rightarrow> ConnectionKey \<Rightarrow> slice" where
  "old_incoming pcs k = (case connections pcs k of None \<Rightarrow> nil_slice | Some c \<Rightarrow> IncomingData c)"

definition old_chunks :: "PacketCaptureService \<Rightarrow> heap \<Rightarrow> ConnectionKey \<Rightarrow> byte list list" where
  "old_chunks pcs h k = (case connections pcs k of None \<Rightarrow> [] | Some c \<Rightarrow> chunk_bytes h c)"

text \<open>
  The payload bytes (read in heap \<open>h\<close>) of those frames of a sequence that pass the guards,
  carry the key \<open>k\<close> and have a non-empty payload, in arrival order.
\<close>

definition tracked_payloads ::
  "PacketCaptureService \<Rightarrow> heap \<Rightarrow> ConnectionKey \<Rightarrow> Packet list \<Rightarrow> byte list list" where
  "tracked_payloads pcs h k ps =
     map (\<lambda>p. elems (byte_arrays h) (packet_payload p))
       (filter (\<lambda>p. accepts pcs (byte_arrays h) p \<and> packet_key (byte_arrays h) p = Some k
                    \<and> 0 < sl_len (packet_payload p)) ps)"

section \<open>The application (app.go)\<close>

text \<open>
  The \<open>App\<close> holds a flag and a pointer to the running capture service (nil when there is
  none). Services are objects shared with the capture goroutines, so they live in a store
  of their own, addressed by pointer. The machine is the \<open>App\<close>, that store, the runtime
  and the lines printed to standard output.
\<close>

record App =
  isCapturing :: bool
  packetCaptureService :: "addr option"

record machine =
  app :: App
  pcs_objects :: "addr \<Rightarrow> PacketCaptureService option"
  next_pcs :: addr
  run_time :: runtime
  stdout :: "string list"

text \<open>\<open>PacketCaptureService.StopCapture\<close> cancels the service's context.\<close>

definition PacketCaptureService_StopCapture :: "PacketCaptureService \<Rightarrow> PacketCaptureService" where
  "PacketCaptureService_StopCapture pcs = pcs\<lparr>ctx_done := True\<rparr>"

definition StopCapture :: "machine \<Rightarrow> bool \<times> machine" where
  "StopCapture m =
     (let m1 = m\<lparr>stdout := stdout m @ [''[StopCapture] entering ...'']\<rparr> in
      case packetCaptureService (app m1) of
        Some p \<Rightarrow>
          (True,
           m1\<lparr>pcs_objects :=
                 (case pcs_objects m1 p of
                    None \<Rightarrow> pcs_objects m1
                  | Some s \<Rightarrow> (pcs_objects m1)(p \<mapsto> PacketCaptureService_StopCapture s)),
               app := (app m1)\<lparr>isCapturing := False, packetCaptureService := None\<rparr>\<rparr>)
      | None \<Rightarrow>
          (True, m1\<lparr>stdout := stdout m1 @ [''[StopCapture] No capture service to stop.'']\<rparr>))"

subsection \<open>Decoding a completed flow (the receive branch of StartCapture)\<close>

record CharacterServerInfo =
  Name :: string
  Url :: string
  Players :: int

text \<open>
  \<open>ragnarok.ParsePayloadToCharacterServerInfo\<close> is not part of the sources at hand: it is
  the parameter \<open>parse\<close>, from a chunk's bytes and the pattern to a list of records or
  nil (\<open>None\<close>). The loop over the sorted chunks returns the first non-nil result; its
  second result lists the chunks that were handed to the decoder, in order, the way the
  loop's log line records every decode.
\<close>

type_synonym decoder = "byte list \<Rightarrow> byte list \<Rightarrow> CharacterServerInfo list option"

fun decode_loop ::
  "decoder \<Rightarrow> byte list \<Rightarrow> byte list list \<Rightarrow> byte list list
     \<Rightarrow> CharacterServerInfo list option \<times> byte list list" where
  "decode_loop parse pattern decoded [] = (None, decoded)"
| "decode_loop parse pattern decoded (data # rest) =
     (let charServerInfoList = parse data pattern;
          decoded1 = decoded @ [data]
      in if charServerInfoList \<noteq> None then (charServerInfoList, decoded1)
         else decode_loop parse pattern decoded1 rest)"

text \<open>
  What the consumer does with a connection received from the channel: sort its chunks,
  then run the loop on them (\<open>None\<close> is a panic inside the sort).
\<close>

definition on_connection ::
  "decoder \<Rightarrow> byte list \<Rightarrow> heap \<Rightarrow> Connection
     \<Rightarrow> ((CharacterServerInfo list option \<times> byte list list) \<times> heap) option" where
  "on_connection parse pattern h connection =
     (case GetIncomingDataSortedByLength h connection of
        None \<Rightarrow> None
      | Some (sortedIncomingData, h') \<Rightarrow>
          Some (decode_loop parse pattern []
                  (map (elems (byte_arrays h')) (elems (payload_arrays h') sortedIncomingData)),
                h'))"

subsection \<open>Opening the interfaces (StartCaptureAllInterfaces)\<close>

text \<open>
  Per interface, the goroutine opens the device and installs the filter; on either error
  it calls \<open>log.Fatal\<close>, which prints and then exits the process with status 1 (the
  \<open>return\<close> after it is never reached). \<open>IsValidInterface\<close> is not part of the sources at
  hand; its verdict is a field of the interface here, as is what opening it will do.
\<close>

datatype setup_result = OpenError | FilterError | Sniffing

record Interface =
  if_Name :: string
  if_valid :: bool
  if_setup :: setup_result

datatype process_state = Running "string list" | Exited nat

definition capture_goroutine :: "Interface \<Rightarrow> process_state \<Rightarrow> process_state" where
  "capture_goroutine device st =
     (case st of
        Exited code \<Rightarrow> Exited code
      | Running sniffing \<Rightarrow>
          (case if_setup device of
             OpenError \<Rightarrow> Exited 1
           | FilterError \<Rightarrow> Exited 1
           | Sniffing \<Rightarrow> Running (sniffing @ [if_Name device])))"

text \<open>
  The devices are \<open>None\<close> when \<open>pcap.FindAllDevs\<close> fails (the function then returns at
  once). The goroutines are taken to run their set-up in list order; the outcome does not
  depend on the order (see \<open>StartCaptureAllInterfaces_Exited_iff\<close>).
\<close>

definition StartCaptureAllInterfaces :: "Interface list option \<Rightarrow> process_state" where
  "StartCaptureAllInterfaces devices =
     (case devices of
        None \<Rightarrow> Running []
      | Some ds \<Rightarrow> fold capture_goroutine (filter if_valid ds) (Running []))"

section \<open>A capture session (StartCapture, StopCapture and the capture goroutines together)\<close>

text \<open>
  The entries of \<open>loginServers\<close> (package config is not part of the sources at hand; the
  fields are those of the literals in app.go).
\<close>

record LoginServer =
  ls_Name :: string
  ls_IP :: string
  ls_Port :: int
  ls_Pattern :: "byte list"
  ls_IsNumberResponse :: bool

text \<open>
  \<open>NewPacketCaptureService\<close>: a context that is not cancelled, an empty flow table and a
  new unbuffered channel, on which no goroutine is sending.
\<close>

definition NewPacketCaptureService :: "string \<Rightarrow> int \<Rightarrow> PacketCaptureService" where
  "NewPacketCaptureService i p =
     \<lparr>ip = i, port = p, ctx_done = False, connections = Map.empty, connCloseNotifyChannel = []\<rparr>"

text \<open>
  One call of \<open>StartCapture\<close> is either in its \<open>select\<close> loop, holding the pointer to its
  service and the pattern, or over: it returned a list or nil, or it panicked.
\<close>

datatype outcome = Return "CharacterServerInfo list option" | Panic

datatype activation = Looping addr "byte list" | Finished outcome

text \<open>
  \<open>StartCapture\<close> up to its loop. If the flag or the pointer says a capture is running,
  the previous service is stopped through the pointer (a nil pointer there is a nil
  dereference); then the server is looked up by name; with no match the call returns nil;
  otherwise a new service is created and stored in the \<open>App\<close>, and the call enters its
  loop. (\<open>StartCaptureAllInterfaces\<close> starts the capture goroutines, modelled on its own
  above; the log lines of the Wails runtime are left out.)
\<close>

definition StartCapture_setup :: "LoginServer list \<Rightarrow> string \<Rightarrow> machine \<Rightarrow> activation \<times> machine" where
  "StartCapture_setup loginServers targetServerName m =
     (case find (\<lambda>server. ls_Name server = targetServerName) loginServers of
        None \<Rightarrow> (Finished (Return None), m)
      | Some targetServer \<Rightarrow>
          (Looping (next_pcs m) (ls_Pattern targetServer),
           m\<lparr>pcs_objects := (pcs_objects m)(next_pcs m \<mapsto>
                  NewPacketCaptureService (ls_IP targetServer) (ls_Port targetServer)),
             next_pcs := Suc (next_pcs m),
             app := (app m)\<lparr>packetCaptureService := Some (next_pcs m), isCapturing := True\<rparr>\<rparr>))"

definition StartCapture_enter :: "LoginServer list \<Rightarrow> string \<Rightarrow> machine \<Rightarrow> activation \<times> machine" where
  "StartCapture_enter loginServers targetServerName m =
     (if isCapturing (app m) \<or> packetCaptureService (app m) \<noteq> None then
        (case packetCaptureService (app m) of
           None \<Rightarrow> (Finished Panic, m)
         | Some p \<Rightarrow>
             StartCapture_setup loginServers targetServerName
               (m\<lparr>pcs_objects :=
                    (case pcs_objects m p of
                       None \<Rightarrow> pcs_objects m
                     | Some s \<Rightarrow> (pcs_objects m)(p \<mapsto> PacketCaptureService_StopCapture s)),
                  app := (app m)\<lparr>isCapturing := False, packetCaptureService := None\<rparr>\<rparr>))
      else StartCapture_setup loginServers targetServerName m)"

text \<open>
  The whole system: the machine and the calls of \<open>StartCapture\<close> made so far. What can
  happen, one event at a time: the frontend calls \<open>StartCapture\<close> or \<open>StopCapture\<close>; a
  capture goroutine of the service at a pointer takes a frame from its packet source and
  runs \<open>handlePacket\<close> on it; the \<open>select\<close> of a call in its loop takes its receive branch
  (ready only when a sender is waiting on the channel) or its \<open>ctx.Done()\<close> branch
  (ready only when the context is cancelled). An event that cannot happen in the state
  gives \<open>None\<close>. Each \<open>handlePacket\<close> is one step. The code has no send statement and no
  \<open>close\<close> on the channel, so there is no event for them.
\<close>

datatype event = Call string | Stop | Frame addr Packet | Receive nat | Done nat

record system =
  sys_machine :: machine
  calls :: "activation list"

definition select_receive :: "decoder \<Rightarrow> system \<Rightarrow> nat \<Rightarrow> system option" where
  "select_receive parse s i =
     (let m = sys_machine s in
      if i < length (calls s) then
        (case calls s ! i of
           Finished out \<Rightarrow> None
         | Looping a pattern \<Rightarrow>
             (case pcs_objects m a of
                None \<Rightarrow> None
              | Some pcs \<Rightarrow>
                  (case connCloseNotifyChannel pcs of
                     [] \<Rightarrow> None
                   | connection # waiting \<Rightarrow>
                       (let pcs1 = pcs\<lparr>connCloseNotifyChannel := waiting\<rparr> in
                        case on_connection parse pattern (mem (run_time m)) connection of
                          None \<Rightarrow>
                            Some (s\<lparr>sys_machine := m\<lparr>pcs_objects := (pcs_objects m)(a \<mapsto> pcs1)\<rparr>,
                                    calls := (calls s)[i := Finished Panic]\<rparr>)
                        | Some ((None, decoded), h') \<Rightarrow>
                            Some (s\<lparr>sys_machine :=
                                      m\<lparr>pcs_objects := (pcs_objects m)(a \<mapsto> pcs1),
                                        run_time := (run_time m)\<lparr>mem := h'\<rparr>\<rparr>\<rparr>)
                        | Some ((Some charServerInfoList, decoded), h') \<Rightarrow>
                            Some (s\<lparr>sys_machine :=
                                      m\<lparr>pcs_objects :=
                                          (pcs_objects m)(a \<mapsto> PacketCaptureService_StopCapture pcs1),
                                        run_time := (run_time m)\<lparr>mem := h'\<rparr>\<rparr>,
                                    calls := (calls s)[i := Finished (Return (Some charServerInfoList))]\<rparr>)))))
      else None)"

definition select_done :: "system \<Rightarrow> nat \<Rightarrow> system option" where
  "select_done s i =
     (if i < length (calls s) then
        (case calls s ! i of
           Finished out \<Rightarrow> None
         | Looping a pattern \<Rightarrow>
             (case pcs_objects (sys_machine s) a of
                None \<Rightarrow> None
              | Some pcs \<Rightarrow>
                  if ctx_done pcs then Some (s\<lparr>calls := (calls s)[i := Finished (Return None)]\<rparr>)
                  else None))
      else None)"

definition step :: "decoder \<Rightarrow> LoginServer list \<Rightarrow> system \<Rightarrow> event \<Rightarrow> system option" where
  "step parse loginServers s e =
     (let m = sys_machine s in
      case e of
        Call targetServerName \<Rightarrow>
          (case StartCapture_enter loginServers targetServerName m of
             (act, m') \<Rightarrow> Some (s\<lparr>sys_machine := m', calls := calls s @ [act]\<rparr>))
      | Stop \<Rightarrow> Some (s\<lparr>sys_machine := snd (StopCapture m)\<rparr>)
      | Frame a packet \<Rightarrow>
          (case pcs_objects m a of
             None \<Rightarrow> None
           | Some pcs \<Rightarrow>
               (case handlePacket pcs (run_time m) packet of
                  (pcs', rt') \<Rightarrow>
                    Some (s\<lparr>sys_machine := m\<lparr>pcs_objects := (pcs_objects m)(a \<mapsto> pcs'),
                                                run_time := rt'\<rparr>\<rparr>)))
      | Receive i \<Rightarrow> select_receive parse s i
      | Done i \<Rightarrow> select_done s i)"

fun run :: "decoder \<Rightarrow> LoginServer list \<Rightarrow> system \<Rightarrow> event list \<Rightarrow> system option" where
  "run parse loginServers s [] = Some s"
| "run parse loginServers s (e # es) =
     (case step parse loginServers s e of
        None \<Rightarrow> None
      | Some s' \<Rightarrow> run parse loginServers s' es)"

text \<open>The system after \<open>NewApp\<close>: no service, no call yet.\<close>

definition init_system :: "runtime \<Rightarrow> system" where
  "init_system rt =
     \<lparr>sys_machine = \<lparr>app = \<lparr>isCapturing = False, packetCaptureService = None\<rparr>,
                     pcs_objects = Map.empty, next_pcs = 0, run_time = rt, stdout = []\<rparr>,
      calls = []\<rparr>"

text \<open>What holds in every state of a session (used in the proofs below).\<close>

definition channels_empty :: "machine \<Rightarrow> bool" where
  "channels_empty m = (\<forall>a pcs. pcs_objects m a = Some pcs \<longrightarrow> connCloseNotifyChannel pcs = [])"

definition session_inv :: "system \<Rightarrow> bool" where
  "session_inv s =
     (channels_empty (sys_machine s)
      \<and> (isCapturing (app (sys_machine s)) \<longrightarrow> packetCaptureService (app (sys_machine s)) \<noteq> None)
      \<and> (\<forall>act\<in>set (calls s). \<forall>out. act = Finished out \<longrightarrow> out = Return None))"

section \<open>The status column of the server table (CharacterServerTable.tsx)\<close>








section \<open>The specification's stable order\<close>

text \<open>
  The specification describes the candidate order as a stable descending sort by length.
  This is that order, written from the specification's words (not from the source):
  insertion sort on the negated length, which keeps equal keys in input order.
\<close>

definition claimed_stable_order :: "Payload list \<Rightarrow> Payload list" where
  "claimed_stable_order xs = sort_key (\<lambda>p. - int (sl_len p)) xs"

section \<open>Concrete states used by the examples\<close>

text \<open>A chunk of \<open>n\<close> bytes whose array lives at address \<open>a\<close>.\<close>

definition chunk :: "addr \<Rightarrow> nat \<Rightarrow> Payload" where
  "chunk a n = \<lparr>sl_ptr = Some a, sl_len = n, sl_cap = n\<rparr>"

text \<open>
  A heap with three chunks of lengths 1, 1 and 2, held in insertion order by a connection
  whose \<open>IncomingData\<close> has length 3 and capacity 4.
\<close>

definition heap0 :: heap where
  "heap0 = \<lparr>byte_arrays = [0 \<mapsto> [7], 1 \<mapsto> [8], 2 \<mapsto> [9, 9]],
            payload_arrays = [3 \<mapsto> [chunk 0 1, chunk 1 1, chunk 2 2, nil_slice]],
            next_addr = 4\<rparr>"

definition conn0 :: Connection where
  "conn0 = \<lparr>SrcIP = nil_slice, DstIP = nil_slice, SrcPort = 6900, DstPort = 50000,
            StartTime = 0, LastSeen = 0,
            IncomingData = \<lparr>sl_ptr = Some 3, sl_len = 3, sl_cap = 4\<rparr>, IsFinished = False\<rparr>"

text \<open>
  The specification's example: four chunks of lengths 10, 50, 3 and 50, in that insertion
  order, held at length 4 and capacity 4.
\<close>

definition heap1 :: heap where
  "heap1 = \<lparr>byte_arrays = [0 \<mapsto> replicate 10 1, 1 \<mapsto> replicate 50 2, 2 \<mapsto> replicate 3 3,
                            3 \<mapsto> replicate 50 4],
            payload_arrays = [4 \<mapsto> [chunk 0 10, chunk 1 50, chunk 2 3, chunk 3 50]],
            next_addr = 5\<rparr>"

definition conn1 :: Connection where
  "conn1 = conn0\<lparr>IncomingData := \<lparr>sl_ptr = Some 4, sl_len = 4, sl_cap = 4\<rparr>\<rparr>"

text \<open>
  A capture service for the login server 219.84.200.54:6900 with an empty flow table; a
  runtime whose heap holds one frame of the capture buffer (three payload bytes at address
  0, the source address at 1, the destination address at 2); a frame from the server
  carrying those three bytes; a frame from the same address but another port; and a frame
  that is not IPv4.
\<close>

definition pcs0 :: PacketCaptureService where
  "pcs0 = \<lparr>ip = ''219.84.200.54'', port = 6900, ctx_done = False,
            connections = Map.empty, connCloseNotifyChannel = []\<rparr>"

definition rt0 :: runtime where
  "rt0 = \<lparr>mem = \<lparr>byte_arrays = [0 \<mapsto> [1, 2, 3], 1 \<mapsto> [219, 84, 200, 54], 2 \<mapsto> [192, 168, 1, 10]],
                   payload_arrays = Map.empty, next_addr = 3\<rparr>,
           clock = (\<lambda>n. 100 + n), clock_reads = 0, growslice = (\<lambda>c. 2 * c)\<rparr>"

definition ipl0 :: IPv4 where
  "ipl0 = \<lparr>ipv4_SrcIP = \<lparr>sl_ptr = Some 1, sl_len = 4, sl_cap = 4\<rparr>,
            ipv4_DstIP = \<lparr>sl_ptr = Some 2, sl_len = 4, sl_cap = 4\<rparr>\<rparr>"

definition tcp0 :: TCP where
  "tcp0 = \<lparr>tcp_SrcPort = 6900, tcp_DstPort = 50000, tcp_FIN = False, tcp_RST = False,
            tcp_Payload = \<lparr>sl_ptr = Some 0, sl_len = 3, sl_cap = 3\<rparr>\<rparr>"

definition pkt0 :: Packet where
  "pkt0 = \<lparr>LayerTypeIPv4 = Some ipl0, LayerTypeTCP = Some tcp0\<rparr>"

definition pkt_other_port :: Packet where
  "pkt_other_port = \<lparr>LayerTypeIPv4 = Some ipl0, LayerTypeTCP = Some (tcp0\<lparr>tcp_SrcPort := 443\<rparr>)\<rparr>"

definition pkt_not_ipv4 :: Packet where
  "pkt_not_ipv4 = \<lparr>LayerTypeIPv4 = None, LayerTypeTCP = Some tcp0\<rparr>"

text \<open>A frame of the same flow that carries no payload (a bare acknowledgement).\<close>

definition pkt_ack :: Packet where
  "pkt_ack = \<lparr>LayerTypeIPv4 = Some ipl0, LayerTypeTCP = Some (tcp0\<lparr>tcp_Payload := nil_slice\<rparr>)\<rparr>"

text \<open>A machine with one running capture service, at pointer 0.\<close>

definition machine0 :: machine where
  "machine0 = \<lparr>app = \<lparr>isCapturing = True, packetCaptureService = Some 0\<rparr>,
                pcs_objects = [0 \<mapsto> pcs0], next_pcs = 1, run_time = rt0, stdout = []\<rparr>"

text \<open>A decoder that accepts exactly the chunks of two bytes.\<close>

definition parse0 :: decoder where
  "parse0 d pattern =
     (if length d = 2 then Some [\<lparr>Name = ''Baphomet'', Url = ''10.0.0.1:7000'', Players = 1234\<rparr>]
      else None)"

text \<open>Two valid interfaces: the first cannot be opened, the second can.\<close>

definition eth0 :: Interface where
  "eth0 = \<lparr>if_Name = ''eth0'', if_valid = True, if_setup = OpenError\<rparr>"

definition eth1 :: Interface where
  "eth1 = \<lparr>if_Name = ''eth1'', if_valid = True, if_setup = Sniffing\<rparr>"

text \<open>
  The two login servers of app.go, and a frame from the first one that carries the FIN
  flag.
\<close>

definition loginServers0 :: "LoginServer list" where
  "loginServers0 =
     [\<lparr>ls_Name = ''Taiwan'', ls_IP = ''219.84.200.54'', ls_Port = 6900, ls_Pattern = [0xc0, 0xa8],
       ls_IsNumberResponse = True\<rparr>,
      \<lparr>ls_Name = ''Taiwan - Zero'', ls_IP = ''35.229.252.108'', ls_Port = 6900,
       ls_Pattern = [0xc0, 0xa8], ls_IsNumberResponse = False\<rparr>]"

definition pkt_fin :: Packet where
  "pkt_fin = \<lparr>LayerTypeIPv4 = Some ipl0, LayerTypeTCP = Some (tcp0\<lparr>tcp_FIN := True\<rparr>)\<rparr>"

section \<open>The sort of GetIncomingDataSortedByLength\<close>

text \<open>
  The two loops act on one array of the heap. Their effect on its contents is described by
  the same loops on a list; the heap loops are then shown to compute exactly that.
\<close>

function inner_list :: "slice list \<Rightarrow> nat \<Rightarrow> nat \<Rightarrow> slice list" where
  "inner_list xs i j =
     (if j < length xs then
        inner_list (if sl_len (xs ! i) < sl_len (xs ! j) then xs[i := xs ! j, j := xs ! i] else xs)
          i (Suc j)
      else xs)"
  by pat_completeness auto
termination
  by (relation "measure (\<lambda>(xs, i, j). length xs - j)") auto

function outer_list :: "slice list \<Rightarrow> nat \<Rightarrow> slice list" where
  "outer_list xs i =
     (if int i < int (length xs) - 1 then outer_list (inner_list xs i (Suc i)) (Suc i) else xs)"
  by pat_completeness auto

declare inner_list.simps [simp del]

lemma length_inner_list: "length (inner_list xs i j) = length xs"
proof (induction xs i j rule: inner_list.induct)
  case (1 xs i j)
  show ?case
  proof (cases "j < length xs")
    case True
    with 1 show ?thesis
      by (subst inner_list.simps) (simp split: if_splits)
  next
    case False
    then show ?thesis by (subst inner_list.simps) simp
  qed
qed

termination outer_list
  by (relation "measure (\<lambda>(xs, i). length xs - i)") (auto simp: length_inner_list)

declare outer_list.simps [simp del]

lemma mset_inner_list: "i < j \<Longrightarrow> mset (inner_list xs i j) = mset xs"
proof (induction xs i j rule: inner_list.induct)
  case (1 xs i j)
  show ?case
  proof (cases "j < length xs")
    case True
    with 1 show ?thesis
      by (subst inner_list.simps) (simp add: mset_swap)
  next
    case False
    then show ?thesis by (subst inner_list.simps) simp
  qed
qed

lemma take_inner_list: "i < j \<Longrightarrow> take i (inner_list xs i j) = take i xs"
proof (induction xs i j rule: inner_list.induct)
  case (1 xs i j)
  show ?case
  proof (cases "j < length xs")
    case True
    with 1 show ?thesis
      by (subst inner_list.simps) simp
  next
    case False
    then show ?thesis by (subst inner_list.simps) simp
  qed
qed

lemma inner_list_dominates:
  "i < j \<Longrightarrow> \<forall>k. i < k \<and> k < j \<and> k < length xs \<longrightarrow> sl_len (xs ! k) \<le> sl_len (xs ! i) \<Longrightarrow>
   i < k \<Longrightarrow> k < length xs \<Longrightarrow>
   sl_len (inner_list xs i j ! k) \<le> sl_len (inner_list xs i j ! i)"
proof (induction xs i j rule: inner_list.induct)
  case (1 xs i j)
  show ?case
  proof (cases "j < length xs")
    case False
    then have "inner_list xs i j = xs"
      by (subst inner_list.simps) simp
    with "1.prems" False show ?thesis by simp
  next
    case True
    define ys where "ys = (if sl_len (xs ! i) < sl_len (xs ! j) then xs[i := xs ! j, j := xs ! i] else xs)"
    have len: "length ys = length xs" by (simp add: ys_def)
    have step: "inner_list xs i j = inner_list ys i (Suc j)"
      using True by (subst inner_list.simps) (simp add: ys_def)
    have inv: "\<forall>k. i < k \<and> k < Suc j \<and> k < length ys \<longrightarrow> sl_len (ys ! k) \<le> sl_len (ys ! i)"
    proof (intro allI impI)
      fix m assume m: "i < m \<and> m < Suc j \<and> m < length ys"
      show "sl_len (ys ! m) \<le> sl_len (ys ! i)"
      proof (cases "sl_len (xs ! i) < sl_len (xs ! j)")
        case sw: True
        then have ys: "ys = xs[i := xs ! j, j := xs ! i]" by (simp add: ys_def)
        have ij: "i < length xs" "i \<noteq> j" using "1.prems"(1) True by auto
        show ?thesis
        proof (cases "m = j")
          case True
          then show ?thesis using sw ij \<open>j < length xs\<close> by (simp add: ys)
        next
          case False
          then have "m < j" using m by simp
          then have "sl_len (xs ! m) \<le> sl_len (xs ! i)" using "1.prems"(2) m len by simp
          then show ?thesis using sw ij False m \<open>j < length xs\<close> by (simp add: ys)
        qed
      next
        case nsw: False
        then have ys: "ys = xs" by (simp add: ys_def)
        show ?thesis
        proof (cases "m = j")
          case True
          then show ?thesis using nsw by (simp add: ys)
        next
          case False
          then have "m < j" using m by simp
          then show ?thesis using "1.prems"(2) m len by (simp add: ys)
        qed
      qed
    qed
    have "sl_len (inner_list ys i (Suc j) ! k) \<le> sl_len (inner_list ys i (Suc j) ! i)"
      using "1.IH"[OF True, folded ys_def] inv "1.prems" len by simp
    then show ?thesis by (simp add: step)
  qed
qed

definition dominated :: "slice list \<Rightarrow> nat \<Rightarrow> bool" where
  "dominated xs i = (\<forall>a b. a < i \<and> a < b \<and> b < length xs \<longrightarrow> sl_len (xs ! b) \<le> sl_len (xs ! a))"

lemma drop_inner_list_mset:
  assumes "i < j"
  shows "mset (drop i (inner_list xs i j)) = mset (drop i xs)"
proof -
  have "mset (take i (inner_list xs i j)) + mset (drop i (inner_list xs i j)) = mset (take i xs) + mset (drop i xs)"
    using mset_inner_list[OF assms, of xs] by (simp flip: mset_append)
  then show ?thesis by (simp add: take_inner_list[OF assms])
qed

lemma inner_list_nth_prefix:
  assumes "i < j" "a < i"
  shows "inner_list xs i j ! a = xs ! a"
proof (cases "i \<le> length xs")
  case True
  have "take i (inner_list xs i j) ! a = take i xs ! a"
    by (simp add: take_inner_list[OF assms(1)])
  then show ?thesis using assms(2) by simp
next
  case False
  then have "\<not> j < length xs" using assms(1) by simp
  then show ?thesis by (subst inner_list.simps) simp
qed

lemma inner_list_suffix_mem:
  assumes "i < j" "i \<le> b" "b < length xs"
  shows "\<exists>c. i \<le> c \<and> c < length xs \<and> inner_list xs i j ! b = xs ! c"
proof -
  have "inner_list xs i j ! b = drop i (inner_list xs i j) ! (b - i)"
    using assms by (simp add: length_inner_list)
  moreover have "b - i < length (drop i (inner_list xs i j))"
    using assms by (simp add: length_inner_list)
  ultimately have "inner_list xs i j ! b \<in> set (drop i (inner_list xs i j))"
    by (metis nth_mem)
  then have "inner_list xs i j ! b \<in> set (drop i xs)"
    using drop_inner_list_mset[OF assms(1), of xs] by (metis set_mset_mset)
  then obtain d where "d < length (drop i xs)" "drop i xs ! d = inner_list xs i j ! b"
    by (auto simp: in_set_conv_nth)
  then show ?thesis
    by (intro exI[of _ "i + d"]) auto
qed

lemma dominated_inner_list:
  assumes "dominated xs i"
  shows "dominated (inner_list xs i (Suc i)) (Suc i)"
  unfolding dominated_def
proof (intro allI impI)
  fix a b
  assume h: "a < Suc i \<and> a < b \<and> b < length (inner_list xs i (Suc i))"
  then have b: "b < length xs" by (simp add: length_inner_list)
  show "sl_len (inner_list xs i (Suc i) ! b) \<le> sl_len (inner_list xs i (Suc i) ! a)"
  proof (cases "a = i")
    case True
    then show ?thesis
      using inner_list_dominates[of i "Suc i" xs b] h b by simp
  next
    case False
    then have a: "a < i" using h by simp
    show ?thesis
    proof (cases "b < i")
      case True
      then show ?thesis
        using assms a h b by (simp add: inner_list_nth_prefix dominated_def)
    next
      case False
      then obtain c where c: "i \<le> c" "c < length xs" "inner_list xs i (Suc i) ! b = xs ! c"
        using inner_list_suffix_mem[of i "Suc i" b xs] b by auto
      then have "sl_len (xs ! c) \<le> sl_len (xs ! a)"
        using assms a by (simp add: dominated_def)
      then show ?thesis using c a by (simp add: inner_list_nth_prefix)
    qed
  qed
qed

lemma length_outer_list: "length (outer_list xs i) = length xs"
proof (induction xs i rule: outer_list.induct)
  case (1 xs i)
  show ?case
  proof (cases "int i < int (length xs) - 1")
    case True
    with 1 show ?thesis by (subst outer_list.simps) (simp add: length_inner_list)
  next
    case False
    then show ?thesis by (subst outer_list.simps) simp
  qed
qed

lemma mset_outer_list: "mset (outer_list xs i) = mset xs"
proof (induction xs i rule: outer_list.induct)
  case (1 xs i)
  show ?case
  proof (cases "int i < int (length xs) - 1")
    case True
    with 1 show ?thesis by (subst outer_list.simps) (simp add: mset_inner_list)
  next
    case False
    then show ?thesis by (subst outer_list.simps) simp
  qed
qed

lemma dominated_outer_list:
  "dominated xs i \<Longrightarrow> dominated (outer_list xs i) (length xs)"
proof (induction xs i rule: outer_list.induct)
  case (1 xs i)
  show ?case
  proof (cases "int i < int (length xs) - 1")
    case True
    then have "dominated (outer_list (inner_list xs i (Suc i)) (Suc i)) (length (inner_list xs i (Suc i)))"
      using "1.IH" dominated_inner_list[OF "1.prems"] by simp
    then show ?thesis using True by (subst outer_list.simps) (simp add: length_inner_list)
  next
    case False
    then have "outer_list xs i = xs" by (subst outer_list.simps) simp
    moreover have "dominated xs (length xs)"
      using "1.prems" False unfolding dominated_def by (auto; force)
    ultimately show ?thesis by simp
  qed
qed

lemma sorted_outer_list:
  "sorted_wrt (\<lambda>p q. sl_len q \<le> sl_len p) (outer_list xs 0)"
proof -
  have "dominated xs 0" by (simp add: dominated_def)
  then have "dominated (outer_list xs 0) (length xs)" by (rule dominated_outer_list)
  then show ?thesis
    by (simp add: sorted_wrt_iff_nth_less dominated_def length_outer_list)
qed

lemma index_sl_some:
  "sl_ptr s = Some a \<Longrightarrow> A a = Some xs \<Longrightarrow> sl_len s = length xs \<Longrightarrow> i < length xs \<Longrightarrow>
   index_sl A s i = Some (xs ! i)"
  by (simp add: index_sl_def)

lemma store_sl_some:
  "sl_ptr s = Some a \<Longrightarrow> A a = Some xs \<Longrightarrow> sl_len s = length xs \<Longrightarrow> i < length xs \<Longrightarrow>
   store_sl A s i v = Some (A(a \<mapsto> xs[i := v]))"
  by (simp add: store_sl_def)

lemma sort_inner_loop_refines:
  "sl_ptr s = Some a \<Longrightarrow> A a = Some xs \<Longrightarrow> sl_len s = length xs \<Longrightarrow> i < j \<Longrightarrow>
   sort_inner_loop A s i j = Some (A(a \<mapsto> inner_list xs i j))"
proof (induction A s i j arbitrary: xs rule: sort_inner_loop.induct)
  case (1 A s i j)
  show ?case
  proof (cases "j < sl_len s")
    case False
    then have "inner_list xs i j = xs"
      using "1.prems" by (subst inner_list.simps) simp
    moreover have "A(a \<mapsto> xs) = A" using "1.prems"(2) by (simp add: fun_upd_idem)
    ultimately show ?thesis using False by (subst sort_inner_loop.simps) simp
  next
    case True
    then have j: "j < length xs" and i: "i < length xs" using "1.prems" by auto
    have ix: "index_sl A s i = Some (xs ! i)" using "1.prems" i by (simp add: index_sl_some)
    have jx: "index_sl A s j = Some (xs ! j)" using "1.prems" j by (simp add: index_sl_some)
    show ?thesis
    proof (cases "sl_len (xs ! i) < sl_len (xs ! j)")
      case sw: True
      define A1 where "A1 = A(a \<mapsto> xs[i := xs ! j])"
      define A2 where "A2 = A1(a \<mapsto> xs[i := xs ! j, j := xs ! i])"
      have s1: "store_sl A s i (xs ! j) = Some A1"
        using "1.prems" i by (simp add: store_sl_some A1_def)
      have s2: "store_sl A1 s j (xs ! i) = Some A2"
        using "1.prems" j by (simp add: store_sl_some[where xs="xs[i := xs ! j]"] A1_def A2_def)
      have A2a: "A2 a = Some (xs[i := xs ! j, j := xs ! i])" by (simp add: A2_def)
      have len2: "sl_len s = length (xs[i := xs ! j, j := xs ! i])" using "1.prems"(3) by simp
      have ij: "i < Suc j" using "1.prems"(4) by simp
      have rec: "sort_inner_loop A2 s i (Suc j) = Some (A2(a \<mapsto> inner_list (xs[i := xs ! j, j := xs ! i]) i (Suc j)))"
        by (rule "1.IH"(1)[OF True ix jx sw s1 s2 "1.prems"(1) A2a len2 ij])
      have unf: "inner_list xs i j = inner_list (xs[i := xs ! j, j := xs ! i]) i (Suc j)"
        using j sw by (subst inner_list.simps) simp
      have upd: "A2(a \<mapsto> inner_list xs i j) = A(a \<mapsto> inner_list xs i j)"
        by (simp add: A2_def A1_def)
      have "sort_inner_loop A2 s i (Suc j) = Some (A(a \<mapsto> inner_list xs i j))"
        using rec upd by (simp flip: unf)
      then show ?thesis
        using True ix jx sw s1 s2
        by (subst sort_inner_loop.simps) simp
    next
      case nsw: False
      have ij: "i < Suc j" using "1.prems"(4) by simp
      have "sort_inner_loop A s i (Suc j) = Some (A(a \<mapsto> inner_list xs i (Suc j)))"
        by (rule "1.IH"(2)[OF True ix jx nsw "1.prems"(1,2,3) ij])
      moreover have "inner_list xs i j = inner_list xs i (Suc j)"
        using j nsw by (subst inner_list.simps) simp
      ultimately show ?thesis
        using True ix jx nsw by (subst sort_inner_loop.simps) simp
    qed
  qed
qed

lemma sort_outer_loop_refines:
  "sl_ptr s = Some a \<Longrightarrow> A a = Some xs \<Longrightarrow> sl_len s = length xs \<Longrightarrow>
   sort_outer_loop A s i = Some (A(a \<mapsto> outer_list xs i))"
proof (induction A s i arbitrary: xs rule: sort_outer_loop.induct)
  case (1 A s i)
  show ?case
  proof (cases "int i < int (sl_len s) - 1")
    case False
    then have "outer_list xs i = xs"
      using "1.prems" by (subst outer_list.simps) simp
    moreover have "A(a \<mapsto> xs) = A" using "1.prems"(2) by (simp add: fun_upd_idem)
    ultimately show ?thesis using False by (subst sort_outer_loop.simps) simp
  next
    case True
    define A1 where "A1 = A(a \<mapsto> inner_list xs i (Suc i))"
    have in1: "sort_inner_loop A s i (Suc i) = Some A1"
      using sort_inner_loop_refines[where A=A and s=s and a=a and xs=xs and i=i and j="Suc i"] "1.prems"
      by (simp add: A1_def)
    have A1a: "A1 a = Some (inner_list xs i (Suc i))" by (simp add: A1_def)
    have len1: "sl_len s = length (inner_list xs i (Suc i))"
      using "1.prems"(3) by (simp add: length_inner_list)
    have rec: "sort_outer_loop A1 s (Suc i) = Some (A1(a \<mapsto> outer_list (inner_list xs i (Suc i)) (Suc i)))"
      by (rule "1.IH"[OF True in1 "1.prems"(1) A1a len1])
    have unf: "outer_list xs i = outer_list (inner_list xs i (Suc i)) (Suc i)"
      using True "1.prems"(3) by (subst outer_list.simps) simp
    have upd: "A1(a \<mapsto> outer_list xs i) = A(a \<mapsto> outer_list xs i)"
      by (simp add: A1_def)
    have "sort_outer_loop A1 s (Suc i) = Some (A(a \<mapsto> outer_list xs i))"
      using rec upd by (simp flip: unf)
    then show ?thesis
      using True in1 by (subst sort_outer_loop.simps) simp
  qed
qed

lemma valid_slice_ptr:
  assumes "valid_slice A s" "0 < sl_len s"
  obtains a xs where "sl_ptr s = Some a" "A a = Some xs" "sl_len s \<le> length xs"
  using assms by (auto simp: valid_slice_def split: option.splits)

lemma length_elems: "valid_slice A s \<Longrightarrow> length (elems A s) = sl_len s"
  by (auto simp: valid_slice_def elems_def split: option.splits)

lemma elems_fun_upd_other:
  "sl_ptr s \<noteq> Some a \<Longrightarrow> elems (A(a \<mapsto> xs)) s = elems A s"
  by (auto simp: elems_def split: option.splits)

lemma GetIncomingDataSortedByLength_empty:
  "sl_len (IncomingData c) = 0 \<Longrightarrow> GetIncomingDataSortedByLength h c = Some (nil_slice, h)"
  by (simp add: GetIncomingDataSortedByLength_def)

lemma GetIncomingDataSortedByLength_nonempty:
  assumes ok: "heap_ok h" and v: "valid_slice (payload_arrays h) (IncomingData c)"
    and n: "0 < sl_len (IncomingData c)"
  shows "GetIncomingDataSortedByLength h c =
     Some (\<lparr>sl_ptr = Some (next_addr h), sl_len = sl_len (IncomingData c), sl_cap = sl_len (IncomingData c)\<rparr>,
           h\<lparr>payload_arrays := (payload_arrays h)(next_addr h \<mapsto>
                 outer_list (elems (payload_arrays h) (IncomingData c)) 0),
             next_addr := Suc (next_addr h)\<rparr>)"
proof -
  define src where "src = IncomingData c"
  define m where "m = sl_len src"
  define na where "na = next_addr h"
  define A where "A = payload_arrays h"
  define sp where "sp = \<lparr>sl_ptr = Some na, sl_len = m, sl_cap = m\<rparr>"
  define A1 where "A1 = A(na \<mapsto> replicate m nil_slice)"
  obtain a xs where a: "sl_ptr src = Some a" "A a = Some xs" "m \<le> length xs"
    using valid_slice_ptr[OF v n] by (auto simp: src_def A_def m_def)
  have "a \<in> dom (payload_arrays h)" using a(2) by (auto simp: A_def)
  then have ne: "a \<noteq> na" using ok by (auto simp: heap_ok_def na_def)
  have el1: "elems A1 src = elems A src"
    unfolding A1_def using a(1) ne by (intro elems_fun_upd_other) simp
  have len: "length (elems A src) = m"
    using length_elems[OF v] by (simp add: src_def A_def m_def)
  have cp: "copy_sl A1 sp src = A(na \<mapsto> elems A src)"
  proof -
    have "copy_sl A1 sp src = A1(na \<mapsto> take m (elems A1 src) @ drop m (replicate m nil_slice))"
      by (simp add: copy_sl_def sp_def m_def[symmetric]) (simp add: A1_def)
    also have "\<dots> = A1(na \<mapsto> elems A src)" using len by (simp add: el1)
    also have "\<dots> = A(na \<mapsto> elems A src)" by (simp add: A1_def)
    finally show ?thesis .
  qed
  have so: "sort_outer_loop (A(na \<mapsto> elems A src)) sp 0 =
      Some ((A(na \<mapsto> elems A src))(na \<mapsto> outer_list (elems A src) 0))"
    by (rule sort_outer_loop_refines[where a=na]) (simp_all add: sp_def len)
  show ?thesis
    using n so cp
    unfolding GetIncomingDataSortedByLength_def make_payloads_def
    by (simp add: src_def[symmetric] m_def[symmetric] na_def[symmetric] A_def[symmetric]
        sp_def[symmetric] A1_def[symmetric])
qed

subsection \<open>Chunks of the greatest length keep their order\<close>

text \<open>
  A swap moves a longer chunk in front of a strictly shorter one, and every chunk between
  the two is no longer than the shorter. So a chunk of the greatest length only ever moves
  across chunks that are not of the greatest length.
\<close>

lemma swap_decomp:
  "(A @ x # M @ y # B)[length A := y, Suc (length A + length M) := x] = A @ y # M @ x # B"
  by (simp add: list_update_append nth_append)

lemma swap_as_decomp:
  assumes "i < j" "j < length xs"
  shows "\<exists>A M B. xs = A @ xs ! i # M @ xs ! j # B \<and> length A = i \<and> Suc (i + length M) = j
           \<and> (\<forall>x\<in>set M. \<exists>k. i < k \<and> k < j \<and> x = xs ! k)"
proof -
  define ys where "ys = drop (Suc i) xs"
  define j' where "j' = j - Suc i"
  have i: "i < length xs" using assms by simp
  have j': "j' < length ys" "Suc i + j' = j" using assms by (simp_all add: ys_def j'_def)
  have yj: "ys ! j' = xs ! j" using j' assms by (simp add: ys_def)
  have 1: "xs = take i xs @ xs ! i # ys" using i by (simp add: ys_def id_take_nth_drop[symmetric])
  have 2: "ys = take j' ys @ xs ! j # drop (Suc j') ys"
    using id_take_nth_drop[OF j'(1)] yj by simp
  have mem: "\<forall>x\<in>set (take j' ys). \<exists>k. i < k \<and> k < j \<and> x = xs ! k"
  proof
    fix x assume "x \<in> set (take j' ys)"
    then obtain n where n: "n < length (take j' ys)" "take j' ys ! n = x"
      by (auto simp: in_set_conv_nth)
    then have "n < j'" by simp
    then have "x = xs ! (Suc i + n)" using n j' assms by (simp add: ys_def)
    moreover have "i < Suc i + n" "Suc i + n < j" using \<open>n < j'\<close> j'(2) by simp_all
    ultimately show "\<exists>k. i < k \<and> k < j \<and> x = xs ! k" by blast
  qed
  have "xs = take i xs @ xs ! i # take j' ys @ xs ! j # drop (Suc j') ys"
    using 1 2 by metis
  moreover have "length (take i xs) = i" using i by simp
  moreover have "Suc (i + length (take j' ys)) = j" using j' by simp
  ultimately show ?thesis using mem by blast
qed

lemma filter_swap:
  assumes ij: "i < j" "j < length xs" and ni: "\<not> P (xs ! i)"
    and mid: "\<forall>k. i < k \<and> k < j \<longrightarrow> \<not> P (xs ! k)"
  shows "filter P (xs[i := xs ! j, j := xs ! i]) = filter P xs"
proof -
  obtain A M B where d: "xs = A @ xs ! i # M @ xs ! j # B" "length A = i" "Suc (i + length M) = j"
    "\<forall>x\<in>set M. \<exists>k. i < k \<and> k < j \<and> x = xs ! k"
    using swap_as_decomp[OF ij] by blast
  have fm: "filter P M = []" using d(4) mid by (auto simp: filter_empty_conv)
  define a where "a = xs ! i"
  define b where "b = xs ! j"
  have xs: "xs = A @ a # M @ b # B" using d(1) by (simp add: a_def b_def)
  have "xs[i := b, j := a] = A @ b # M @ a # B"
    using swap_decomp[of A a M b B] d(2,3) by (simp add: xs)
  then have "filter P (xs[i := b, j := a]) = filter P A @ filter P [b] @ filter P B"
    using fm ni by (simp add: a_def)
  moreover have "filter P xs = filter P A @ filter P [b] @ filter P B"
    using fm ni by (subst xs) (simp add: a_def)
  ultimately show ?thesis by (simp add: a_def b_def)
qed


lemma inner_step_inv:
  assumes ij: "i < j" and j: "j < length xs"
    and inv: "\<forall>k. i < k \<and> k < j \<and> k < length xs \<longrightarrow> sl_len (xs ! k) \<le> sl_len (xs ! i)"
    and ys: "ys = (if sl_len (xs ! i) < sl_len (xs ! j) then xs[i := xs ! j, j := xs ! i] else xs)"
  shows "\<forall>k. i < k \<and> k < Suc j \<and> k < length ys \<longrightarrow> sl_len (ys ! k) \<le> sl_len (ys ! i)"
proof (intro allI impI)
  fix m assume m: "i < m \<and> m < Suc j \<and> m < length ys"
  have len: "length ys = length xs" by (simp add: ys)
  have i: "i < length xs" "i \<noteq> j" using ij j by auto
  show "sl_len (ys ! m) \<le> sl_len (ys ! i)"
  proof (cases "sl_len (xs ! i) < sl_len (xs ! j)")
    case sw: True
    then have y: "ys = xs[i := xs ! j, j := xs ! i]" by (simp add: ys)
    show ?thesis
    proof (cases "m = j")
      case True
      then show ?thesis using sw i j by (simp add: y)
    next
      case False
      then have "m < j" using m by simp
      then have "sl_len (xs ! m) \<le> sl_len (xs ! i)" using inv m len by simp
      then show ?thesis using sw i False m j by (simp add: y)
    qed
  next
    case nsw: False
    then have y: "ys = xs" by (simp add: ys)
    show ?thesis
    proof (cases "m = j")
      case True
      then show ?thesis using nsw by (simp add: y)
    next
      case False
      then have "m < j" using m by simp
      then show ?thesis using inv m len by (simp add: y)
    qed
  qed
qed

lemma inner_list_filter_max:
  "i < j \<Longrightarrow> \<forall>k. i < k \<and> k < j \<and> k < length xs \<longrightarrow> sl_len (xs ! k) \<le> sl_len (xs ! i) \<Longrightarrow>
   \<forall>p\<in>set xs. sl_len p \<le> m \<Longrightarrow>
   filter (\<lambda>p. sl_len p = m) (inner_list xs i j) = filter (\<lambda>p. sl_len p = m) xs"
proof (induction xs i j rule: inner_list.induct)
  case (1 xs i j)
  show ?case
  proof (cases "j < length xs")
    case False
    then have "inner_list xs i j = xs" by (subst inner_list.simps) simp
    then show ?thesis by simp
  next
    case True
    define ys where "ys = (if sl_len (xs ! i) < sl_len (xs ! j) then xs[i := xs ! j, j := xs ! i] else xs)"
    have step: "inner_list xs i j = inner_list ys i (Suc j)"
      using True by (subst inner_list.simps) (simp add: ys_def)
    have i: "i < length xs" using "1.prems"(1) True by simp
    have inv': "\<forall>k. i < k \<and> k < Suc j \<and> k < length ys \<longrightarrow> sl_len (ys ! k) \<le> sl_len (ys ! i)"
      by (rule inner_step_inv[OF "1.prems"(1) True "1.prems"(2) ys_def])
    have ms: "mset ys = mset xs" using i True by (simp add: ys_def mset_swap)
    then have "set ys = set xs" by (metis set_mset_mset)
    then have bd: "\<forall>p\<in>set ys. sl_len p \<le> m" using "1.prems"(3) by simp
    have fy: "filter (\<lambda>p. sl_len p = m) ys = filter (\<lambda>p. sl_len p = m) xs"
    proof (cases "sl_len (xs ! i) < sl_len (xs ! j)")
      case False
      then show ?thesis by (simp add: ys_def)
    next
      case sw: True
      have "sl_len (xs ! j) \<le> m" using "1.prems"(3) True by simp
      then have ni: "\<not> sl_len (xs ! i) = m" using sw by simp
      have mid: "\<forall>k. i < k \<and> k < j \<longrightarrow> \<not> sl_len (xs ! k) = m"
      proof (intro allI impI)
        fix k assume k: "i < k \<and> k < j"
        then have "sl_len (xs ! k) \<le> sl_len (xs ! i)" using "1.prems"(2) True by simp
        then show "\<not> sl_len (xs ! k) = m" using sw \<open>sl_len (xs ! j) \<le> m\<close> by simp
      qed
      show ?thesis
        using filter_swap[OF "1.prems"(1) True, of "\<lambda>p. sl_len p = m", OF ni mid] sw
        by (simp add: ys_def)
    qed
    have ij: "i < Suc j" using "1.prems"(1) by simp
    have "filter (\<lambda>p. sl_len p = m) (inner_list ys i (Suc j)) = filter (\<lambda>p. sl_len p = m) ys"
      by (rule "1.IH"[OF True, folded ys_def, OF ij inv' bd])
    then show ?thesis by (simp add: step fy)
  qed
qed

lemma outer_list_filter_max:
  "\<forall>p\<in>set xs. sl_len p \<le> m \<Longrightarrow>
   filter (\<lambda>p. sl_len p = m) (outer_list xs i) = filter (\<lambda>p. sl_len p = m) xs"
proof (induction xs i rule: outer_list.induct)
  case (1 xs i)
  show ?case
  proof (cases "int i < int (length xs) - 1")
    case False
    then have "outer_list xs i = xs" by (subst outer_list.simps) simp
    then show ?thesis by simp
  next
    case True
    have step: "outer_list xs i = outer_list (inner_list xs i (Suc i)) (Suc i)"
      using True by (subst outer_list.simps) simp
    have f1: "filter (\<lambda>p. sl_len p = m) (inner_list xs i (Suc i)) = filter (\<lambda>p. sl_len p = m) xs"
      by (rule inner_list_filter_max) (use "1.prems" in auto)
    have "set (inner_list xs i (Suc i)) = set xs"
      using mset_inner_list[of i "Suc i" xs] by (metis lessI set_mset_mset)
    then have bd: "\<forall>p\<in>set (inner_list xs i (Suc i)). sl_len p \<le> m" using "1.prems" by simp
    show ?thesis using "1.IH"[OF True bd] f1 by (simp add: step)
  qed
qed

subsection \<open>Evaluation on the example heap\<close>

lemma heap_ok_heap0: "heap_ok heap0"
  by (simp add: heap0_def heap_ok_def)

lemma valid_conn0: "valid_slice (payload_arrays heap0) (IncomingData conn0)"
  by (simp add: heap0_def conn0_def valid_slice_def)

lemma elems_conn0:
  "elems (payload_arrays heap0) (IncomingData conn0) = [chunk 0 1, chunk 1 1, chunk 2 2]"
  by (simp add: heap0_def conn0_def elems_def)

lemma outer_list_112:
  "outer_list [chunk 0 1, chunk 1 1, chunk 2 2] 0 = [chunk 2 2, chunk 1 1, chunk 0 1]"
  by code_simp

lemma GetIncomingDataSortedByLength_conn0:
  "GetIncomingDataSortedByLength heap0 conn0 =
     Some (\<lparr>sl_ptr = Some 4, sl_len = 3, sl_cap = 3\<rparr>,
           heap0\<lparr>payload_arrays := (payload_arrays heap0)(4 \<mapsto> [chunk 2 2, chunk 1 1, chunk 0 1]),
                 next_addr := 5\<rparr>)"
proof -
  have n: "0 < sl_len (IncomingData conn0)" by (simp add: conn0_def)
  show ?thesis
    using GetIncomingDataSortedByLength_nonempty[OF heap_ok_heap0 valid_conn0 n]
    unfolding elems_conn0 outer_list_112
    by (simp add: conn0_def heap0_def)
qed

text \<open>
  The specification's own example, lengths 10, 50, 3, 50: the loops do leave the two
  chunks of length 50 in input order there.
\<close>

lemma outer_list_spec_example:
  "outer_list [chunk 0 10, chunk 1 50, chunk 2 3, chunk 3 50] 0 =
     [chunk 1 50, chunk 3 50, chunk 0 10, chunk 2 3]"
  by code_simp

lemma heap_ok_heap1: "heap_ok heap1"
  by (simp add: heap1_def heap_ok_def)

lemma valid_conn1: "valid_slice (payload_arrays heap1) (IncomingData conn1)"
  by (simp add: heap1_def conn1_def valid_slice_def)

lemma elems_conn1:
  "elems (payload_arrays heap1) (IncomingData conn1) = [chunk 0 10, chunk 1 50, chunk 2 3, chunk 3 50]"
  by (simp add: heap1_def conn1_def elems_def)

lemma GetIncomingDataSortedByLength_conn1:
  "GetIncomingDataSortedByLength heap1 conn1 =
     Some (\<lparr>sl_ptr = Some 5, sl_len = 4, sl_cap = 4\<rparr>,
           heap1\<lparr>payload_arrays := (payload_arrays heap1)(5 \<mapsto> [chunk 1 50, chunk 3 50, chunk 0 10, chunk 2 3]),
                 next_addr := 6\<rparr>)"
proof -
  have n: "0 < sl_len (IncomingData conn1)" by (simp add: conn1_def)
  show ?thesis
    using GetIncomingDataSortedByLength_nonempty[OF heap_ok_heap1 valid_conn1 n]
    unfolding elems_conn1 outer_list_spec_example
    by (simp add: conn1_def heap1_def)
qed

subsection \<open>Claims about GetIncomingDataSortedByLength\<close>

text \<open>
  C1 (as stated): GetIncomingDataSortedByLength returns the chunks in the stable descending
  order by length, equal lengths in insertion order. This fails: on chunks of lengths
  1, 1, 2 (in that insertion order) the swap of the first chunk with the third moves the
  first chunk behind the second, so the two chunks of length 1 come out reversed.
\<close>

theorem C1_stable_counterexample:
  "map_option (\<lambda>(r, h'). elems (payload_arrays h') r) (GetIncomingDataSortedByLength heap0 conn0)
     = Some [chunk 2 2, chunk 1 1, chunk 0 1]
   \<and> claimed_stable_order (elems (payload_arrays heap0) (IncomingData conn0))
     = [chunk 2 2, chunk 0 1, chunk 1 1]
   \<and> chunk 1 1 \<noteq> chunk 0 1"
proof -
  have "map_option (\<lambda>(r, h'). elems (payload_arrays h') r) (GetIncomingDataSortedByLength heap0 conn0)
     = Some [chunk 2 2, chunk 1 1, chunk 0 1]"
    unfolding GetIncomingDataSortedByLength_conn0 by (simp add: elems_def)
  moreover have "claimed_stable_order (elems (payload_arrays heap0) (IncomingData conn0))
     = [chunk 2 2, chunk 0 1, chunk 1 1]"
    unfolding elems_conn0 by (simp add: claimed_stable_order_def chunk_def)
  moreover have "chunk 1 1 \<noteq> chunk 0 1"
    by (simp add: chunk_def)
  ultimately show ?thesis by blast
qed

text \<open>
  C1 (amended): on a well-formed heap, for every connection whose chunk slice is valid,
  GetIncomingDataSortedByLength returns (it does not panic); the chunks it returns are a
  permutation of the connection's chunks, in descending order of length; and the chunks of
  the greatest length keep their insertion order (for every bound \<open>m\<close> on the lengths, the
  chunks of length exactly \<open>m\<close> are the same list before and after). Ties among shorter
  chunks may come out reversed. For the lengths 10, 50, 3, 50 this fixes the output: both
  chunks of length 50 in input order, then 10, then 3.
\<close>

theorem C1_sorted_descending:
  assumes "heap_ok h" and "valid_slice (payload_arrays h) (IncomingData c)"
  shows "\<exists>r h'. GetIncomingDataSortedByLength h c = Some (r, h')
           \<and> mset (elems (payload_arrays h') r) = mset (elems (payload_arrays h) (IncomingData c))
           \<and> sorted_wrt (\<lambda>p q. sl_len q \<le> sl_len p) (elems (payload_arrays h') r)
           \<and> (\<forall>m. (\<forall>p\<in>set (elems (payload_arrays h) (IncomingData c)). sl_len p \<le> m) \<longrightarrow>
                 filter (\<lambda>p. sl_len p = m) (elems (payload_arrays h') r)
                   = filter (\<lambda>p. sl_len p = m) (elems (payload_arrays h) (IncomingData c)))"
proof (cases "sl_len (IncomingData c) = 0")
  case True
  then have "elems (payload_arrays h) (IncomingData c) = []"
    by (simp add: elems_def split: option.splits)
  then show ?thesis
    using True by (simp add: GetIncomingDataSortedByLength_empty elems_def nil_slice_def)
next
  case False
  then have n: "0 < sl_len (IncomingData c)" by simp
  define xs where "xs = elems (payload_arrays h) (IncomingData c)"
  have len: "length xs = sl_len (IncomingData c)"
    unfolding xs_def by (rule length_elems[OF assms(2)])
  define r where "r = \<lparr>sl_ptr = Some (next_addr h), sl_len = sl_len (IncomingData c), sl_cap = sl_len (IncomingData c)\<rparr>"
  define h' where "h' = h\<lparr>payload_arrays := (payload_arrays h)(next_addr h \<mapsto> outer_list xs 0),
             next_addr := Suc (next_addr h)\<rparr>"
  have g: "GetIncomingDataSortedByLength h c = Some (r, h')"
    using GetIncomingDataSortedByLength_nonempty[OF assms n] by (simp add: r_def h'_def xs_def)
  have e: "elems (payload_arrays h') r = outer_list xs 0"
    using len by (simp add: elems_def r_def h'_def length_outer_list)
  have "\<forall>m. (\<forall>p\<in>set xs. sl_len p \<le> m) \<longrightarrow>
      filter (\<lambda>p. sl_len p = m) (outer_list xs 0) = filter (\<lambda>p. sl_len p = m) xs"
    using outer_list_filter_max by blast
  then show ?thesis
    using g unfolding xs_def[symmetric]
    by (intro exI[of _ r] exI[of _ h']) (simp add: e mset_outer_list sorted_outer_list)
qed

theorem C1_sorted_descending_witness:
  "heap_ok heap1 \<and> valid_slice (payload_arrays heap1) (IncomingData conn1)
   \<and> (\<exists>r h'. GetIncomingDataSortedByLength heap1 conn1 = Some (r, h')
           \<and> mset (elems (payload_arrays h') r) = mset [chunk 0 10, chunk 1 50, chunk 2 3, chunk 3 50]
           \<and> sorted_wrt (\<lambda>p q. sl_len q \<le> sl_len p) (elems (payload_arrays h') r)
           \<and> filter (\<lambda>p. sl_len p = 50) (elems (payload_arrays h') r) = [chunk 1 50, chunk 3 50])"
proof -
  have bound: "\<forall>p\<in>set [chunk 0 10, chunk 1 50, chunk 2 3, chunk 3 50]. sl_len p \<le> 50"
    by (simp add: chunk_def)
  have f: "filter (\<lambda>p. sl_len p = 50) [chunk 0 10, chunk 1 50, chunk 2 3, chunk 3 50] = [chunk 1 50, chunk 3 50]"
    by (simp add: chunk_def)
  have "\<exists>(r :: slice) (h' :: heap). GetIncomingDataSortedByLength heap1 conn1 = Some (r, h')
           \<and> mset (elems (payload_arrays h') r) = mset [chunk 0 10, chunk 1 50, chunk 2 3, chunk 3 50]
           \<and> sorted_wrt (\<lambda>p q. sl_len q \<le> sl_len p) (elems (payload_arrays h') r)
           \<and> filter (\<lambda>p. sl_len p = 50) (elems (payload_arrays h') r) = [chunk 1 50, chunk 3 50]"
    using C1_sorted_descending[OF heap_ok_heap1 valid_conn1] bound
    unfolding elems_conn1 f[symmetric]
    by (elim exE conjE) (intro exI conjI, assumption+, blast)
  then show ?thesis
    by (simp add: heap_ok_heap1 valid_conn1)
qed

text \<open>
  C10: GetIncomingDataSortedByLength does not mutate the connection; it sorts a fresh copy.
  On a well-formed heap with a valid chunk slice the call returns; every array allocated
  before the call (byte arrays and chunk arrays alike) is unchanged, so the elements read
  through \<open>IncomingData\<close> are the same before and after; the result has the length of
  \<open>IncomingData\<close> and holds a permutation of its chunks in descending order of length;
  the result is the nil slice exactly when \<open>IncomingData\<close> is empty, and otherwise it
  points to a freshly allocated array, not to the connection's.
\<close>

theorem C10_no_mutation:
  assumes "heap_ok h" and "valid_slice (payload_arrays h) (IncomingData c)"
  shows "\<exists>r h'. GetIncomingDataSortedByLength h c = Some (r, h')
           \<and> byte_arrays h' = byte_arrays h
           \<and> (\<forall>a. a < next_addr h \<longrightarrow> payload_arrays h' a = payload_arrays h a)
           \<and> elems (payload_arrays h') (IncomingData c) = elems (payload_arrays h) (IncomingData c)
           \<and> sl_len r = sl_len (IncomingData c)
           \<and> length (elems (payload_arrays h') r) = sl_len (IncomingData c)
           \<and> mset (elems (payload_arrays h') r) = mset (elems (payload_arrays h) (IncomingData c))
           \<and> sorted_wrt (\<lambda>p q. sl_len q \<le> sl_len p) (elems (payload_arrays h') r)
           \<and> (r = nil_slice \<longleftrightarrow> sl_len (IncomingData c) = 0)
           \<and> (sl_ptr r = None \<longleftrightarrow> sl_len (IncomingData c) = 0)
           \<and> (0 < sl_len (IncomingData c) \<longrightarrow>
                sl_ptr r = Some (next_addr h) \<and> sl_ptr r \<noteq> sl_ptr (IncomingData c)
                \<and> payload_arrays h (next_addr h) = None)"
proof (cases "sl_len (IncomingData c) = 0")
  case True
  then have "elems (payload_arrays h) (IncomingData c) = []"
    by (simp add: elems_def split: option.splits)
  then show ?thesis
    using True by (simp add: GetIncomingDataSortedByLength_empty nil_slice_def elems_def)
next
  case False
  then have n: "0 < sl_len (IncomingData c)" by simp
  define xs where "xs = elems (payload_arrays h) (IncomingData c)"
  have len: "length xs = sl_len (IncomingData c)"
    unfolding xs_def by (rule length_elems[OF assms(2)])
  define r where "r = \<lparr>sl_ptr = Some (next_addr h), sl_len = sl_len (IncomingData c), sl_cap = sl_len (IncomingData c)\<rparr>"
  define h' where "h' = h\<lparr>payload_arrays := (payload_arrays h)(next_addr h \<mapsto> outer_list xs 0),
             next_addr := Suc (next_addr h)\<rparr>"
  have g: "GetIncomingDataSortedByLength h c = Some (r, h')"
    using GetIncomingDataSortedByLength_nonempty[OF assms n] by (simp add: r_def h'_def xs_def)
  obtain a ys where a: "sl_ptr (IncomingData c) = Some a" "payload_arrays h a = Some ys"
    using valid_slice_ptr[OF assms(2) n] by blast
  then have "a \<in> dom (payload_arrays h)" by auto
  then have lt: "a < next_addr h" using assms(1) by (auto simp: heap_ok_def)
  have fresh: "payload_arrays h (next_addr h) = None"
    using assms(1) by (auto simp: heap_ok_def)
  have same: "elems (payload_arrays h') (IncomingData c) = xs"
    unfolding h'_def xs_def using a lt by (simp add: elems_fun_upd_other)
  have e: "elems (payload_arrays h') r = outer_list xs 0"
    using len by (simp add: elems_def r_def h'_def length_outer_list)
  have frame: "byte_arrays h' = byte_arrays h"
    "\<forall>a. a < next_addr h \<longrightarrow> payload_arrays h' a = payload_arrays h a"
    by (simp_all add: h'_def)
  have rp: "sl_len r = sl_len (IncomingData c)" "r \<noteq> nil_slice" "sl_ptr r = Some (next_addr h)"
    "sl_ptr r \<noteq> sl_ptr (IncomingData c)"
    using n a lt by (auto simp: r_def nil_slice_def)
  show ?thesis
    using g frame same rp fresh n len unfolding xs_def[symmetric]
    by (intro exI[of _ r] exI[of _ h'])
       (simp add: e mset_outer_list sorted_outer_list length_outer_list)
qed

theorem C10_no_mutation_witness:
  "heap_ok heap0 \<and> valid_slice (payload_arrays heap0) (IncomingData conn0)
   \<and> (\<exists>r h'. GetIncomingDataSortedByLength heap0 conn0 = Some (r, h')
           \<and> byte_arrays h' = byte_arrays heap0
           \<and> payload_arrays h' 3 = payload_arrays heap0 3
           \<and> elems (payload_arrays h') (IncomingData conn0) = [chunk 0 1, chunk 1 1, chunk 2 2]
           \<and> sl_len r = 3
           \<and> mset (elems (payload_arrays h') r) = mset [chunk 0 1, chunk 1 1, chunk 2 2]
           \<and> sorted_wrt (\<lambda>p q. sl_len q \<le> sl_len p) (elems (payload_arrays h') r)
           \<and> r \<noteq> nil_slice
           \<and> sl_ptr r = Some 4)"
proof -
  have n: "sl_len (IncomingData conn0) = 3" "next_addr heap0 = 4"
    by (simp_all add: conn0_def heap0_def)
  have "\<exists>(r :: slice) (h' :: heap). GetIncomingDataSortedByLength heap0 conn0 = Some (r, h')
           \<and> byte_arrays h' = byte_arrays heap0
           \<and> payload_arrays h' 3 = payload_arrays heap0 3
           \<and> elems (payload_arrays h') (IncomingData conn0) = [chunk 0 1, chunk 1 1, chunk 2 2]
           \<and> sl_len r = 3
           \<and> mset (elems (payload_arrays h') r) = mset [chunk 0 1, chunk 1 1, chunk 2 2]
           \<and> sorted_wrt (\<lambda>p q. sl_len q \<le> sl_len p) (elems (payload_arrays h') r)
           \<and> r \<noteq> nil_slice
           \<and> sl_ptr r = Some 4"
    using C10_no_mutation[OF heap_ok_heap0 valid_conn0]
    unfolding n elems_conn0
    by (elim exE conjE) (intro exI conjI, assumption+, simp_all)
  then show ?thesis
    by (simp add: heap_ok_heap0 valid_conn0)
qed

section \<open>Keys identify 4-tuples\<close>

lemma undec_snoc: "undec (s @ [c]) = 10 * undec s + (of_char c - 48)"
  by (simp add: undec_def)

lemma of_char_digit: "d < 10 \<Longrightarrow> (of_char (char_of (48 + d)) :: nat) = 48 + d"
  by (simp add: of_char_of)

lemma undec_dec: "undec (dec n) = n"
proof (induction n rule: dec.induct)
  case (1 n)
  show ?case
  proof (cases "n < 10")
    case True
    then show ?thesis
      by (subst dec.simps) (simp add: undec_def of_char_digit)
  next
    case False
    then have "undec (dec (n div 10)) = n div 10" using 1 by simp
    then show ?thesis
      using False by (subst dec.simps) (simp add: undec_snoc of_char_digit)
  qed
qed

lemma dec_inj: "dec m = dec n \<Longrightarrow> m = n"
  by (metis undec_dec)

lemma digit_not_dot: "(d::nat) < 10 \<Longrightarrow> char_of (48 + d) \<noteq> CHR ''.''"
proof
  assume d: "d < 10" and "char_of (48 + d) = CHR ''.''"
  then have "(of_char (char_of (48 + d)) :: nat) = of_char CHR ''.''" by simp
  then show False using d by (simp add: of_char_digit)
qed

lemma dot_notin_dec: "CHR ''.'' \<notin> set (dec n)"
proof (induction n rule: dec.induct)
  case (1 n)
  show ?case
  proof (cases "n < 10")
    case True
    then show ?thesis
      using digit_not_dot[of n] by (subst dec.simps) auto
  next
    case False
    then show ?thesis
      using 1 digit_not_dot[of "n mod 10"] by (subst dec.simps) auto
  qed
qed

lemma split_at_first:
  "c \<notin> set xs \<Longrightarrow> c \<notin> set xs' \<Longrightarrow> xs @ c # ys = xs' @ c # ys' \<Longrightarrow> xs = xs' \<and> ys = ys'"
proof (induction xs arbitrary: xs')
  case Nil
  then show ?case by (cases xs') auto
next
  case (Cons x xs)
  then show ?case by (cases xs') auto
qed

lemma dotted_split:
  assumes "dec m @ CHR ''.'' # r = dec n @ CHR ''.'' # r'"
  shows "m = n \<and> r = r'"
proof -
  have "dec m = dec n \<and> r = r'"
    by (rule split_at_first[OF dot_notin_dec dot_notin_dec assms])
  then show ?thesis using dec_inj by blast
qed

lemma IP_text_4:
  "length bs = 4 \<Longrightarrow> IP_text bs =
     dec (unat (bs ! 0)) @ CHR ''.'' # (dec (unat (bs ! 1)) @ CHR ''.'' # (dec (unat (bs ! 2)) @ CHR ''.'' # dec (unat (bs ! 3))))"
  by (simp add: IP_text_def)

lemma IP_text_inj4:
  assumes lb: "length bs = 4" and lc: "length cs = 4" and eq: "IP_text bs = IP_text cs"
  shows "bs = cs"
proof -
  have e: "dec (unat (bs ! 0)) @ CHR ''.'' # (dec (unat (bs ! 1)) @ CHR ''.'' # (dec (unat (bs ! 2)) @ CHR ''.'' # dec (unat (bs ! 3))))
      = dec (unat (cs ! 0)) @ CHR ''.'' # (dec (unat (cs ! 1)) @ CHR ''.'' # (dec (unat (cs ! 2)) @ CHR ''.'' # dec (unat (cs ! 3))))"
    using eq unfolding IP_text_4[OF lb] IP_text_4[OF lc] .
  from dotted_split[OF e] have 1: "unat (bs ! 0) = unat (cs ! 0)"
    and e2: "dec (unat (bs ! 1)) @ CHR ''.'' # (dec (unat (bs ! 2)) @ CHR ''.'' # dec (unat (bs ! 3)))
      = dec (unat (cs ! 1)) @ CHR ''.'' # (dec (unat (cs ! 2)) @ CHR ''.'' # dec (unat (cs ! 3)))"
    by blast+
  from dotted_split[OF e2] have 2: "unat (bs ! 1) = unat (cs ! 1)"
    and e3: "dec (unat (bs ! 2)) @ CHR ''.'' # dec (unat (bs ! 3)) = dec (unat (cs ! 2)) @ CHR ''.'' # dec (unat (cs ! 3))"
    by blast+
  from dotted_split[OF e3] have 3: "unat (bs ! 2) = unat (cs ! 2)" and e4: "dec (unat (bs ! 3)) = dec (unat (cs ! 3))"
    by blast+
  have 4: "unat (bs ! 3) = unat (cs ! 3)" using e4 by (rule dec_inj)
  have nth: "\<And>i. i < 4 \<Longrightarrow> bs ! i = cs ! i"
  proof -
    fix i :: nat assume "i < 4"
    then have "i = 0 \<or> i = 1 \<or> i = 2 \<or> i = 3" by arith
    then show "bs ! i = cs ! i" using 1 2 3 4 by (auto simp: word_unat_eq_iff)
  qed
  show ?thesis
    by (rule nth_equalityI) (use lb lc nth in simp_all)
qed

section \<open>Heap lemmas: make, copy and append\<close>

lemma valid_slice_allocated:
  "valid_slice A s \<Longrightarrow> sl_ptr s = Some a \<Longrightarrow> a \<in> dom A"
  by (auto simp: valid_slice_def split: option.splits)

lemma valid_slice_fun_upd_other:
  "sl_ptr s \<noteq> Some a \<Longrightarrow> valid_slice (A(a \<mapsto> xs)) s = valid_slice A s"
  by (auto simp: valid_slice_def split: option.splits)

lemma elems_agree:
  "(\<And>a. sl_ptr s = Some a \<Longrightarrow> A' a = A a) \<Longrightarrow> elems A' s = elems A s"
  by (auto simp: elems_def split: option.splits)

lemma valid_slice_agree:
  "(\<And>a. sl_ptr s = Some a \<Longrightarrow> A' a = A a) \<Longrightarrow> valid_slice A' s = valid_slice A s"
  by (auto simp: valid_slice_def split: option.splits)

text \<open>make followed by copy of a valid source: the fresh array holds the source's elements.\<close>

lemma make_copy_bytes:
  assumes ok: "heap_ok h" and v: "valid_slice (byte_arrays h) src"
    and mk: "make_bytes h (sl_len src) = (data, h1)"
  shows "data = \<lparr>sl_ptr = Some (next_addr h), sl_len = sl_len src, sl_cap = sl_len src\<rparr>"
    and "copy_sl (byte_arrays h1) data src = (byte_arrays h)(next_addr h \<mapsto> elems (byte_arrays h) src)"
    and "payload_arrays h1 = payload_arrays h" and "next_addr h1 = Suc (next_addr h)"
    and "sl_ptr src \<noteq> Some (next_addr h)"
proof -
  show d: "data = \<lparr>sl_ptr = Some (next_addr h), sl_len = sl_len src, sl_cap = sl_len src\<rparr>"
    using mk by (auto simp: make_bytes_def)
  have h1: "h1 = h\<lparr>byte_arrays := (byte_arrays h)(next_addr h \<mapsto> replicate (sl_len src) 0),
        next_addr := Suc (next_addr h)\<rparr>"
    using mk by (auto simp: make_bytes_def)
  show "payload_arrays h1 = payload_arrays h" "next_addr h1 = Suc (next_addr h)"
    by (simp_all add: h1)
  show ne: "sl_ptr src \<noteq> Some (next_addr h)"
  proof
    assume "sl_ptr src = Some (next_addr h)"
    then have "next_addr h \<in> dom (byte_arrays h)" using v by (rule valid_slice_allocated[rotated])
    then show False using ok by (auto simp: heap_ok_def)
  qed
  have el: "elems (byte_arrays h1) src = elems (byte_arrays h) src"
    using ne by (simp add: h1 elems_fun_upd_other)
  have len: "length (elems (byte_arrays h) src) = sl_len src" by (rule length_elems[OF v])
  have "copy_sl (byte_arrays h1) data src =
      (byte_arrays h1)(next_addr h \<mapsto> take (sl_len src) (elems (byte_arrays h1) src)
          @ drop (sl_len src) (replicate (sl_len src) 0))"
    by (simp add: copy_sl_def d Let_def) (simp add: h1)
  also have "\<dots> = (byte_arrays h1)(next_addr h \<mapsto> elems (byte_arrays h) src)"
    using len by (simp add: el)
  also have "\<dots> = (byte_arrays h)(next_addr h \<mapsto> elems (byte_arrays h) src)"
    by (simp add: h1)
  finally show "copy_sl (byte_arrays h1) data src = (byte_arrays h)(next_addr h \<mapsto> elems (byte_arrays h) src)" .
qed

text \<open>append: what the new slice holds, and what it leaves alone.\<close>

lemma append_payload_spec:
  assumes ok: "dom (payload_arrays h) \<subseteq> {..<next_addr h}" and v: "valid_slice (payload_arrays h) s"
    and ap: "append_payload grow h s x = (s', h')"
  shows "elems (payload_arrays h') s' = elems (payload_arrays h) s @ [x]"
    and "valid_slice (payload_arrays h') s'"
    and "byte_arrays h' = byte_arrays h"
    and "next_addr h \<le> next_addr h'" and "next_addr h' \<le> Suc (next_addr h)"
    and "dom (payload_arrays h') \<subseteq> {..<next_addr h'}"
    and "\<And>a. sl_ptr s \<noteq> Some a \<Longrightarrow> a < next_addr h \<Longrightarrow> payload_arrays h' a = payload_arrays h a"
    and "sl_ptr s' = sl_ptr s \<and> sl_ptr s \<noteq> None \<or> sl_ptr s' = Some (next_addr h)"
    and "sl_len s' = Suc (sl_len s)"
proof -
  have all: "elems (payload_arrays h') s' = elems (payload_arrays h) s @ [x]
    \<and> valid_slice (payload_arrays h') s'
    \<and> byte_arrays h' = byte_arrays h
    \<and> next_addr h \<le> next_addr h' \<and> next_addr h' \<le> Suc (next_addr h)
    \<and> dom (payload_arrays h') \<subseteq> {..<next_addr h'}
    \<and> (\<forall>a. sl_ptr s \<noteq> Some a \<longrightarrow> a < next_addr h \<longrightarrow> payload_arrays h' a = payload_arrays h a)
    \<and> (sl_ptr s' = sl_ptr s \<and> sl_ptr s \<noteq> None \<or> sl_ptr s' = Some (next_addr h))
    \<and> sl_len s' = Suc (sl_len s)"
  proof (cases "sl_len s < sl_cap s")
    case True
    then obtain a xs where a: "sl_ptr s = Some a" "payload_arrays h a = Some xs"
      "sl_len s \<le> sl_cap s" "sl_cap s \<le> length xs"
      using v by (auto simp: valid_slice_def split: option.splits)
    have s': "s' = s\<lparr>sl_len := Suc (sl_len s)\<rparr>"
      and h': "h' = h\<lparr>payload_arrays := (payload_arrays h)(a \<mapsto> xs[sl_len s := x])\<rparr>"
      using ap True a by (auto simp: append_payload_def)
    have lt: "sl_len s < length xs" using True a by simp
    have "take (Suc (sl_len s)) (xs[sl_len s := x]) = take (sl_len s) xs @ [x]"
      using lt by (simp add: take_Suc_conv_app_nth)
    then have e: "elems (payload_arrays h') s' = elems (payload_arrays h) s @ [x]"
      using a by (simp add: elems_def s' h')
    have "a \<in> dom (payload_arrays h)" using a by auto
    then have d: "dom (payload_arrays h') \<subseteq> {..<next_addr h'}"
      using ok by (auto simp: h')
    show ?thesis
      using e d a True by (simp add: s' h' valid_slice_def)
  next
    case False
    define newcap where "newcap = max (Suc (sl_len s)) (grow (sl_cap s))"
    define ys where "ys = elems (payload_arrays h) s @ [x] @ replicate (newcap - Suc (sl_len s)) nil_slice"
    have s': "s' = \<lparr>sl_ptr = Some (next_addr h), sl_len = Suc (sl_len s), sl_cap = newcap\<rparr>"
      and h': "h' = h\<lparr>payload_arrays := (payload_arrays h)(next_addr h \<mapsto> ys), next_addr := Suc (next_addr h)\<rparr>"
      using ap False by (auto simp: append_payload_def Let_def newcap_def ys_def)
    have len: "length (elems (payload_arrays h) s) = sl_len s" by (rule length_elems[OF v])
    have ly: "length ys = newcap" using len by (simp add: ys_def newcap_def)
    have e: "elems (payload_arrays h') s' = elems (payload_arrays h) s @ [x]"
      using len by (simp add: elems_def s' h' ys_def)
    have d: "dom (payload_arrays h') \<subseteq> {..<next_addr h'}"
      using ok by (auto simp: h')
    have vs: "valid_slice (payload_arrays h') s'"
      using ly by (simp add: valid_slice_def s' h' newcap_def)
    show ?thesis
      using e d vs by (simp add: s' h')
  qed
  show "elems (payload_arrays h') s' = elems (payload_arrays h) s @ [x]"
    and "valid_slice (payload_arrays h') s'"
    and "byte_arrays h' = byte_arrays h"
    and "next_addr h \<le> next_addr h'" and "next_addr h' \<le> Suc (next_addr h)"
    and "dom (payload_arrays h') \<subseteq> {..<next_addr h'}"
    and "\<And>a. sl_ptr s \<noteq> Some a \<Longrightarrow> a < next_addr h \<Longrightarrow> payload_arrays h' a = payload_arrays h a"
    and "sl_ptr s' = sl_ptr s \<and> sl_ptr s \<noteq> None \<or> sl_ptr s' = Some (next_addr h)"
    and "sl_len s' = Suc (sl_len s)"
    using all by blast+
qed

section \<open>handlePacket, case by case\<close>

lemma handlePacket_rejected:
  "\<not> accepts pcs (byte_arrays (mem rt)) p \<Longrightarrow> handlePacket pcs rt p = (pcs, rt)"
  by (auto simp: accepts_def handlePacket_def split: option.splits)

lemma Key_new_conn:
  "Key A \<lparr>SrcIP = ipv4_SrcIP ipl, DstIP = ipv4_DstIP ipl, SrcPort = tcp_SrcPort tcp,
        DstPort = tcp_DstPort tcp, StartTime = t, LastSeen = u, IncomingData = s, IsFinished = f\<rparr>
     = flow_key A ipl tcp"
  by (simp add: Key_def flow_key_def)

lemma handlePacket_accepted:
  assumes "LayerTypeIPv4 p = Some ipl" "LayerTypeTCP p = Some tcp"
    "accepts pcs (byte_arrays (mem rt)) p"
  shows "handlePacket pcs rt p =
     (case touch pcs rt ipl tcp of (c1, rt2) \<Rightarrow>
      case record_payload rt2 c1 (tcp_Payload tcp) of (c2, rt3) \<Rightarrow>
        (pcs\<lparr>connections := (connections pcs)(flow_key (byte_arrays (mem rt)) ipl tcp \<mapsto> c2)\<rparr>, rt3))"
proof -
  have g: "IP_String (byte_arrays (mem rt)) (ipv4_SrcIP ipl) = ip pcs" "tcp_SrcPort tcp = TCPPort (port pcs)"
    using assms by (simp_all add: accepts_def)
  show ?thesis
  proof (cases "connections pcs (flow_key (byte_arrays (mem rt)) ipl tcp)")
    case None
    then show ?thesis
      using assms(1,2) g
      by (simp add: handlePacket_def Key_def flow_key_def touch_def record_payload_def time_Now_def
          Let_def split: prod.splits)
  next
    case (Some existing)
    then show ?thesis
      using assms(1,2) g
      by (simp add: handlePacket_def Key_def flow_key_def touch_def record_payload_def time_Now_def
          Let_def split: prod.splits)
  qed
qed

lemma accepts_port_range:
  assumes "0 \<le> port pcs" "port pcs < 65536"
  shows "accepts pcs A p = from_target pcs A p"
proof -
  have "\<And>w :: 16 word. (w = TCPPort (port pcs)) = (uint w = port pcs)"
  proof -
    fix w :: "16 word"
    have "uint (TCPPort (port pcs)) = port pcs"
      using assms by (simp add: TCPPort_def uint_word_of_int)
    then show "(w = TCPPort (port pcs)) = (uint w = port pcs)"
      by (metis word_uint_eq_iff)
  qed
  then show ?thesis
    by (simp add: accepts_def from_target_def split: option.splits)
qed

lemma handlePacket_config:
  "handlePacket pcs rt p = (pcs', rt') \<Longrightarrow>
     ip pcs' = ip pcs \<and> port pcs' = port pcs \<and> ctx_done pcs' = ctx_done pcs
     \<and> connCloseNotifyChannel pcs' = connCloseNotifyChannel pcs
     \<and> clock rt' = clock rt \<and> growslice rt' = growslice rt"
proof (cases "accepts pcs (byte_arrays (mem rt)) p")
  case False
  assume "handlePacket pcs rt p = (pcs', rt')"
  then show ?thesis using handlePacket_rejected[OF False] by simp
next
  case True
  then obtain ipl tcp where l: "LayerTypeIPv4 p = Some ipl" "LayerTypeTCP p = Some tcp"
    by (auto simp: accepts_def split: option.splits)
  assume "handlePacket pcs rt p = (pcs', rt')"
  then show ?thesis
    unfolding handlePacket_accepted[OF l True]
    by (auto simp: touch_def record_payload_def make_bytes_def Let_def
        split: prod.splits option.splits if_splits)
qed

lemma record_payload_empty:
  "sl_len payload = 0 \<Longrightarrow> record_payload rt c payload = (c, rt)"
  by (simp add: record_payload_def)

lemma record_payload_nonempty:
  assumes ok: "heap_ok (mem rt)" and c: "conn_ok (mem rt) c"
    and v: "valid_slice (byte_arrays (mem rt)) payload" and n: "0 < sl_len payload"
    and rp: "record_payload rt c payload = (c2, rt3)"
  shows "\<exists>incoming. c2 = c\<lparr>IncomingData := incoming\<rparr>
      \<and> (sl_ptr incoming = sl_ptr (IncomingData c) \<and> sl_ptr incoming \<noteq> None
          \<or> sl_ptr incoming = Some (Suc (next_addr (mem rt))))
      \<and> valid_slice (payload_arrays (mem rt3)) incoming
      \<and> elems (payload_arrays (mem rt3)) incoming =
          elems (payload_arrays (mem rt)) (IncomingData c)
            @ [\<lparr>sl_ptr = Some (next_addr (mem rt)), sl_len = sl_len payload, sl_cap = sl_len payload\<rparr>]"
    and "byte_arrays (mem rt3) =
      (byte_arrays (mem rt))(next_addr (mem rt) \<mapsto> elems (byte_arrays (mem rt)) payload)"
    and "\<And>a. sl_ptr (IncomingData c) \<noteq> Some a \<Longrightarrow> a < next_addr (mem rt) \<Longrightarrow>
      payload_arrays (mem rt3) a = payload_arrays (mem rt) a"
    and "Suc (next_addr (mem rt)) \<le> next_addr (mem rt3)"
    and "dom (payload_arrays (mem rt3)) \<subseteq> {..<next_addr (mem rt3)}"
    and "\<exists>h3. rt3 = rt\<lparr>mem := h3\<rparr>"
proof -
  define h where "h = mem rt"
  define data where "data = \<lparr>sl_ptr = Some (next_addr h), sl_len = sl_len payload, sl_cap = sl_len payload\<rparr>"
  define h2 where "h2 = h\<lparr>byte_arrays := (byte_arrays h)(next_addr h \<mapsto> elems (byte_arrays h) payload),
      next_addr := Suc (next_addr h)\<rparr>"
  obtain d1 h1 where mk: "make_bytes h (sl_len payload) = (d1, h1)" by (cases "make_bytes h (sl_len payload)")
  have ok': "heap_ok h" and v': "valid_slice (byte_arrays h) payload" using ok v by (simp_all add: h_def)
  note mc = make_copy_bytes[OF ok' v' mk]
  have d1: "d1 = data" using mc(1) by (simp add: data_def)
  have h1: "h1\<lparr>byte_arrays := copy_sl (byte_arrays h1) d1 payload\<rparr> = h2"
  proof -
    have "h1 = h\<lparr>byte_arrays := (byte_arrays h)(next_addr h \<mapsto> replicate (sl_len payload) 0),
        next_addr := Suc (next_addr h)\<rparr>"
      using mk by (auto simp: make_bytes_def)
    then show ?thesis using mc(2) by (simp add: h2_def)
  qed
  obtain incoming h3 where ap: "append_payload (growslice rt) h2 (IncomingData c) data = (incoming, h3)"
    by (cases "append_payload (growslice rt) h2 (IncomingData c) data")
  have res: "c2 = c\<lparr>IncomingData := incoming\<rparr>" "rt3 = rt\<lparr>mem := h3\<rparr>"
    using rp n mk ap h1 d1 by (simp_all add: record_payload_def h_def[symmetric])
  have dom2: "dom (payload_arrays h2) \<subseteq> {..<next_addr h2}"
    using ok' by (auto simp: heap_ok_def h2_def)
  have v2: "valid_slice (payload_arrays h2) (IncomingData c)"
    using c by (simp add: conn_ok_def h2_def h_def)
  note sp = append_payload_spec[OF dom2 v2 ap]
  have pa2: "payload_arrays h2 = payload_arrays h" "next_addr h2 = Suc (next_addr h)"
    "byte_arrays h2 = (byte_arrays h)(next_addr h \<mapsto> elems (byte_arrays h) payload)"
    by (simp_all add: h2_def)
  show "\<exists>incoming. c2 = c\<lparr>IncomingData := incoming\<rparr>
      \<and> (sl_ptr incoming = sl_ptr (IncomingData c) \<and> sl_ptr incoming \<noteq> None
          \<or> sl_ptr incoming = Some (Suc (next_addr (mem rt))))
      \<and> valid_slice (payload_arrays (mem rt3)) incoming
      \<and> elems (payload_arrays (mem rt3)) incoming =
          elems (payload_arrays (mem rt)) (IncomingData c)
            @ [\<lparr>sl_ptr = Some (next_addr (mem rt)), sl_len = sl_len payload, sl_cap = sl_len payload\<rparr>]"
    using sp(1,2,8) res pa2
    by (intro exI[of _ incoming]) (auto simp: h_def[symmetric] data_def)
  show "byte_arrays (mem rt3) =
      (byte_arrays (mem rt))(next_addr (mem rt) \<mapsto> elems (byte_arrays (mem rt)) payload)"
    using sp(3) res pa2 by (simp add: h_def[symmetric])
  show "\<And>a. sl_ptr (IncomingData c) \<noteq> Some a \<Longrightarrow> a < next_addr (mem rt) \<Longrightarrow>
      payload_arrays (mem rt3) a = payload_arrays (mem rt) a"
    using sp(7) res pa2 by (simp add: h_def[symmetric])
  show "Suc (next_addr (mem rt)) \<le> next_addr (mem rt3)"
    using sp(4) res pa2 by (simp add: h_def[symmetric])
  show "dom (payload_arrays (mem rt3)) \<subseteq> {..<next_addr (mem rt3)}"
    using sp(6) res by simp
  show "\<exists>h3. rt3 = rt\<lparr>mem := h3\<rparr>" using res by blast
qed

lemma bytes_frame:
  assumes ok: "heap_ok h" and v: "valid_slice (byte_arrays h) p"
    and same: "\<And>a. a < next_addr h \<Longrightarrow> byte_arrays h' a = byte_arrays h a"
  shows "valid_slice (byte_arrays h') p" and "elems (byte_arrays h') p = elems (byte_arrays h) p"
proof -
  have eq: "\<And>a. sl_ptr p = Some a \<Longrightarrow> byte_arrays h' a = byte_arrays h a"
  proof -
    fix a assume "sl_ptr p = Some a"
    then have "a \<in> dom (byte_arrays h)" using v by (rule valid_slice_allocated[rotated])
    then have "a < next_addr h" using ok by (auto simp: heap_ok_def)
    then show "byte_arrays h' a = byte_arrays h a" by (rule same)
  qed
  show "valid_slice (byte_arrays h') p" using v valid_slice_agree[of p "byte_arrays h'" "byte_arrays h"] eq by simp
  show "elems (byte_arrays h') p = elems (byte_arrays h) p" using eq by (rule elems_agree)
qed

lemma conn_frame:
  assumes ok: "heap_ok h" and c: "conn_ok h c"
    and same: "\<And>a. a < next_addr h \<Longrightarrow> byte_arrays h' a = byte_arrays h a"
    and arr: "\<And>a. sl_ptr (IncomingData c) = Some a \<Longrightarrow> payload_arrays h' a = payload_arrays h a"
  shows "conn_ok h' c" and "chunk_bytes h' c = chunk_bytes h c"
proof -
  have e: "elems (payload_arrays h') (IncomingData c) = elems (payload_arrays h) (IncomingData c)"
    using arr by (rule elems_agree)
  have vs: "valid_slice (payload_arrays h') (IncomingData c)"
    using c valid_slice_agree[of "IncomingData c" "payload_arrays h'" "payload_arrays h"] arr
    by (simp add: conn_ok_def)
  have ch: "\<And>p. p \<in> set (elems (payload_arrays h) (IncomingData c)) \<Longrightarrow>
      valid_slice (byte_arrays h') p \<and> elems (byte_arrays h') p = elems (byte_arrays h) p"
  proof -
    fix p assume "p \<in> set (elems (payload_arrays h) (IncomingData c))"
    then have "valid_slice (byte_arrays h) p" using c by (simp add: conn_ok_def)
    then show "valid_slice (byte_arrays h') p \<and> elems (byte_arrays h') p = elems (byte_arrays h) p"
      using bytes_frame[OF ok _ same] by blast
  qed
  show "conn_ok h' c" using vs ch by (simp add: conn_ok_def e)
  show "chunk_bytes h' c = chunk_bytes h c" using ch by (simp add: chunk_bytes_def e)
qed

lemma record_payload_bytes:
  assumes ok: "heap_ok (mem rt)" and c: "conn_ok (mem rt) c"
    and v: "valid_slice (byte_arrays (mem rt)) payload" and n: "0 < sl_len payload"
    and rp: "record_payload rt c payload = (c2, rt3)"
  shows "\<And>a. a < next_addr (mem rt) \<Longrightarrow> byte_arrays (mem rt3) a = byte_arrays (mem rt) a"
    and "heap_ok (mem rt3)"
proof -
  note rn = record_payload_nonempty[OF ok c v n rp]
  show same: "\<And>a. a < next_addr (mem rt) \<Longrightarrow> byte_arrays (mem rt3) a = byte_arrays (mem rt) a"
    by (simp add: rn(2))
  have "dom (byte_arrays (mem rt)) \<subseteq> {..<next_addr (mem rt)}"
    using ok by (simp add: heap_ok_def)
  then have "dom (byte_arrays (mem rt3)) \<subseteq> {..<next_addr (mem rt3)}"
    using rn(4) unfolding rn(2) by (auto split: if_splits)
  then show "heap_ok (mem rt3)" using rn(5) by (simp add: heap_ok_def)
qed

lemma record_payload_conn:
  assumes ok: "heap_ok (mem rt)" and c: "conn_ok (mem rt) c"
    and v: "valid_slice (byte_arrays (mem rt)) payload" and n: "0 < sl_len payload"
    and rp: "record_payload rt c payload = (c2, rt3)"
  shows "conn_ok (mem rt3) c2"
    and "chunk_bytes (mem rt3) c2 = chunk_bytes (mem rt) c @ [elems (byte_arrays (mem rt)) payload]"
proof -
  define data where "data = \<lparr>sl_ptr = Some (next_addr (mem rt)), sl_len = sl_len payload, sl_cap = sl_len payload\<rparr>"
  note rn = record_payload_nonempty[OF ok c v n rp]
  obtain incoming where inc: "c2 = c\<lparr>IncomingData := incoming\<rparr>"
    "valid_slice (payload_arrays (mem rt3)) incoming"
    "elems (payload_arrays (mem rt3)) incoming = elems (payload_arrays (mem rt)) (IncomingData c) @ [data]"
    using rn(1) unfolding data_def by blast
  have i2: "IncomingData c2 = incoming" by (simp add: inc(1))
  note same = record_payload_bytes(1)[OF ok c v n rp]
  have lenp: "length (elems (byte_arrays (mem rt)) payload) = sl_len payload"
    by (rule length_elems[OF v])
  have dv: "valid_slice (byte_arrays (mem rt3)) data"
    unfolding rn(2) using lenp by (simp add: valid_slice_def data_def)
  have de: "elems (byte_arrays (mem rt3)) data = elems (byte_arrays (mem rt)) payload"
    unfolding rn(2) using lenp by (simp add: elems_def data_def)
  have old: "\<And>p. p \<in> set (elems (payload_arrays (mem rt)) (IncomingData c)) \<Longrightarrow>
      valid_slice (byte_arrays (mem rt3)) p \<and> elems (byte_arrays (mem rt3)) p = elems (byte_arrays (mem rt)) p"
  proof -
    fix p assume "p \<in> set (elems (payload_arrays (mem rt)) (IncomingData c))"
    then have vp: "valid_slice (byte_arrays (mem rt)) p" using c by (simp add: conn_ok_def)
    show "valid_slice (byte_arrays (mem rt3)) p \<and> elems (byte_arrays (mem rt3)) p = elems (byte_arrays (mem rt)) p"
      using bytes_frame[OF ok vp same] by blast
  qed
  have "\<forall>p \<in> set (elems (payload_arrays (mem rt3)) incoming). valid_slice (byte_arrays (mem rt3)) p"
    unfolding inc(3) using old dv by auto
  then show "conn_ok (mem rt3) c2"
    unfolding conn_ok_def i2 using inc(2) by blast
  have "map (elems (byte_arrays (mem rt3))) (elems (payload_arrays (mem rt)) (IncomingData c))
      = map (elems (byte_arrays (mem rt))) (elems (payload_arrays (mem rt)) (IncomingData c))"
    using old by (intro map_cong) auto
  then show "chunk_bytes (mem rt3) c2 = chunk_bytes (mem rt) c @ [elems (byte_arrays (mem rt)) payload]"
    unfolding chunk_bytes_def i2 inc(3) using de by simp
qed

lemma conn_ok_LastSeen: "conn_ok h (c\<lparr>LastSeen := t\<rparr>) = conn_ok h c"
  by (simp add: conn_ok_def)

lemma touch_spec:
  assumes tok: "table_ok pcs (mem rt)" and t: "touch pcs rt ipl tcp = (c1, rt2)"
  shows "mem rt2 = mem rt" and "clock rt2 = clock rt" and "growslice rt2 = growslice rt"
    and "clock_reads rt < clock_reads rt2" and "conn_ok (mem rt) c1"
    and "IncomingData c1 = old_incoming pcs (flow_key (byte_arrays (mem rt)) ipl tcp)"
    and "chunk_bytes (mem rt) c1 = old_chunks pcs (mem rt) (flow_key (byte_arrays (mem rt)) ipl tcp)"
proof -
  have all: "mem rt2 = mem rt \<and> clock rt2 = clock rt \<and> growslice rt2 = growslice rt
    \<and> clock_reads rt < clock_reads rt2 \<and> conn_ok (mem rt) c1
    \<and> IncomingData c1 = old_incoming pcs (flow_key (byte_arrays (mem rt)) ipl tcp)
    \<and> chunk_bytes (mem rt) c1 = old_chunks pcs (mem rt) (flow_key (byte_arrays (mem rt)) ipl tcp)"
  proof (cases "connections pcs (flow_key (byte_arrays (mem rt)) ipl tcp)")
    case None
    then have c1: "c1 = \<lparr>SrcIP = ipv4_SrcIP ipl, DstIP = ipv4_DstIP ipl,
            SrcPort = tcp_SrcPort tcp, DstPort = tcp_DstPort tcp,
            StartTime = clock rt (clock_reads rt), LastSeen = clock rt (Suc (Suc (clock_reads rt))),
            IncomingData = nil_slice, IsFinished = False\<rparr>"
      and rt2: "rt2 = rt\<lparr>clock_reads := Suc (Suc (Suc (clock_reads rt)))\<rparr>"
      using t by (simp_all add: touch_def)
    show ?thesis
      using None
      by (simp add: c1 rt2 conn_ok_def valid_slice_def elems_def nil_slice_def
          old_incoming_def old_chunks_def chunk_bytes_def)
  next
    case (Some e)
    then have c1: "c1 = e\<lparr>LastSeen := clock rt (clock_reads rt)\<rparr>"
      and rt2: "rt2 = rt\<lparr>clock_reads := Suc (clock_reads rt)\<rparr>"
      using t by (simp_all add: touch_def)
    have "conn_ok (mem rt) e"
      using tok Some by (auto simp: table_ok_def)
    then show ?thesis
      using Some
      by (simp add: c1 rt2 conn_ok_def old_incoming_def old_chunks_def chunk_bytes_def)
  qed
  show "mem rt2 = mem rt" and "clock rt2 = clock rt" and "growslice rt2 = growslice rt"
    and "clock_reads rt < clock_reads rt2" and "conn_ok (mem rt) c1"
    and "IncomingData c1 = old_incoming pcs (flow_key (byte_arrays (mem rt)) ipl tcp)"
    and "chunk_bytes (mem rt) c1 = old_chunks pcs (mem rt) (flow_key (byte_arrays (mem rt)) ipl tcp)"
    using all by blast+
qed

lemma table_ok_ptr_lt:
  assumes tok: "table_ok pcs h" and c: "connections pcs k = Some c" and p: "sl_ptr (IncomingData c) = Some a"
  shows "a < next_addr h"
proof -
  have "valid_slice (payload_arrays h) (IncomingData c)"
    using tok c by (auto simp: table_ok_def conn_ok_def)
  then have "a \<in> dom (payload_arrays h)" using p by (rule valid_slice_allocated)
  then show ?thesis using tok by (auto simp: table_ok_def heap_ok_def)
qed

lemma table_ok_ptr_other:
  assumes tok: "table_ok pcs h" and c: "connections pcs k' = Some c'" and ne: "k' \<noteq> k"
    and p: "sl_ptr (IncomingData c') = Some a"
  shows "sl_ptr (old_incoming pcs k) \<noteq> Some a"
proof (cases "connections pcs k")
  case None
  then show ?thesis by (simp add: old_incoming_def nil_slice_def)
next
  case (Some c)
  have "sl_ptr (IncomingData c') = None \<or> sl_ptr (IncomingData c') \<noteq> sl_ptr (IncomingData c)"
    using tok c Some ne unfolding table_ok_def by blast
  then show ?thesis using p Some by (auto simp: old_incoming_def)
qed

lemma table_update_ok:
  assumes tok: "table_ok pcs h" and ok': "heap_ok h'" and c2: "conn_ok h' c2"
    and A: "\<And>a. a < next_addr h \<Longrightarrow> byte_arrays h' a = byte_arrays h a"
    and B: "\<And>a. a < next_addr h \<Longrightarrow> sl_ptr (old_incoming pcs k) \<noteq> Some a \<Longrightarrow>
              payload_arrays h' a = payload_arrays h a"
    and C: "sl_ptr (IncomingData c2) = sl_ptr (old_incoming pcs k)
            \<or> (\<exists>a. sl_ptr (IncomingData c2) = Some a \<and> next_addr h \<le> a)"
  shows "table_ok (pcs\<lparr>connections := (connections pcs)(k \<mapsto> c2)\<rparr>) h'"
    and "\<And>k' c. k' \<noteq> k \<Longrightarrow> connections pcs k' = Some c \<Longrightarrow> chunk_bytes h' c = chunk_bytes h c"
proof -
  have ok: "heap_ok h" using tok by (simp add: table_ok_def)
  have other: "\<And>k' c. k' \<noteq> k \<Longrightarrow> connections pcs k' = Some c \<Longrightarrow>
      conn_ok h' c \<and> chunk_bytes h' c = chunk_bytes h c"
  proof -
    fix k' c assume ne: "k' \<noteq> k" and c: "connections pcs k' = Some c"
    have co: "conn_ok h c" using tok c by (auto simp: table_ok_def)
    have arr: "\<And>a. sl_ptr (IncomingData c) = Some a \<Longrightarrow> payload_arrays h' a = payload_arrays h a"
    proof -
      fix a assume p: "sl_ptr (IncomingData c) = Some a"
      show "payload_arrays h' a = payload_arrays h a"
        by (rule B[OF table_ok_ptr_lt[OF tok c p] table_ok_ptr_other[OF tok c ne p]])
    qed
    show "conn_ok h' c \<and> chunk_bytes h' c = chunk_bytes h c"
      using conn_frame[OF ok co A arr] by blast
  qed
  show "\<And>k' c. k' \<noteq> k \<Longrightarrow> connections pcs k' = Some c \<Longrightarrow> chunk_bytes h' c = chunk_bytes h c"
    using other by blast
  have disj_new: "\<And>k' c'. k' \<noteq> k \<Longrightarrow> connections pcs k' = Some c' \<Longrightarrow>
      sl_ptr (IncomingData c') = None \<or> sl_ptr (IncomingData c') \<noteq> sl_ptr (IncomingData c2)"
  proof -
    fix k' c' assume ne: "k' \<noteq> k" and c: "connections pcs k' = Some c'"
    show "sl_ptr (IncomingData c') = None \<or> sl_ptr (IncomingData c') \<noteq> sl_ptr (IncomingData c2)"
    proof (cases "sl_ptr (IncomingData c')")
      case None
      then show ?thesis by simp
    next
      case (Some a)
      have 1: "a < next_addr h" by (rule table_ok_ptr_lt[OF tok c Some])
      have 2: "sl_ptr (old_incoming pcs k) \<noteq> Some a" by (rule table_ok_ptr_other[OF tok c ne Some])
      show ?thesis using C 1 2 Some by auto
    qed
  qed
  have disj_new': "\<And>k' c'. k' \<noteq> k \<Longrightarrow> connections pcs k' = Some c' \<Longrightarrow>
      sl_ptr (IncomingData c2) = None \<or> sl_ptr (IncomingData c2) \<noteq> sl_ptr (IncomingData c')"
    using disj_new by (metis)
  have old_disj: "\<And>k1 k2 c1 c2'. connections pcs k1 = Some c1 \<Longrightarrow> connections pcs k2 = Some c2' \<Longrightarrow> k1 \<noteq> k2 \<Longrightarrow>
      sl_ptr (IncomingData c1) = None \<or> sl_ptr (IncomingData c1) \<noteq> sl_ptr (IncomingData c2')"
    using tok unfolding table_ok_def by blast
  show "table_ok (pcs\<lparr>connections := (connections pcs)(k \<mapsto> c2)\<rparr>) h'"
    unfolding table_ok_def
  proof (intro conjI allI impI)
    show "heap_ok h'" by (rule ok')
  next
    fix k1 c1 assume "connections (pcs\<lparr>connections := (connections pcs)(k \<mapsto> c2)\<rparr>) k1 = Some c1"
    then have "k1 = k \<and> c1 = c2 \<or> k1 \<noteq> k \<and> connections pcs k1 = Some c1"
      by (auto split: if_splits)
    then show "conn_ok h' c1" using c2 other by blast
  next
    fix k1 k2 c1 c3
    assume "connections (pcs\<lparr>connections := (connections pcs)(k \<mapsto> c2)\<rparr>) k1 = Some c1 \<and>
       connections (pcs\<lparr>connections := (connections pcs)(k \<mapsto> c2)\<rparr>) k2 = Some c3 \<and> k1 \<noteq> k2"
    then have cases: "(k1 = k \<and> c1 = c2 \<or> k1 \<noteq> k \<and> connections pcs k1 = Some c1)"
      "(k2 = k \<and> c3 = c2 \<or> k2 \<noteq> k \<and> connections pcs k2 = Some c3)" "k1 \<noteq> k2"
      by (auto split: if_splits)
    then show "sl_ptr (IncomingData c1) = None \<or> sl_ptr (IncomingData c1) \<noteq> sl_ptr (IncomingData c3)"
      using disj_new disj_new' old_disj by metis
  qed
qed

lemma Key_IncomingData: "Key A (c\<lparr>IncomingData := s\<rparr>) = Key A c"
  by (simp add: Key_def)

lemma handlePacket_step:
  assumes tok: "table_ok pcs (mem rt)" and acc: "accepts pcs (byte_arrays (mem rt)) p"
    and l1: "LayerTypeIPv4 p = Some ipl" and l2: "LayerTypeTCP p = Some tcp"
    and v: "valid_slice (byte_arrays (mem rt)) (tcp_Payload tcp)"
    and hp: "handlePacket pcs rt p = (pcs', rt')"
  shows "table_ok pcs' (mem rt')"
    and "\<And>k'. k' \<noteq> flow_key (byte_arrays (mem rt)) ipl tcp \<Longrightarrow> connections pcs' k' = connections pcs k'"
    and "\<exists>c'. connections pcs' (flow_key (byte_arrays (mem rt)) ipl tcp) = Some c' \<and>
           chunk_bytes (mem rt') c' = old_chunks pcs (mem rt) (flow_key (byte_arrays (mem rt)) ipl tcp)
             @ (if 0 < sl_len (tcp_Payload tcp) then [elems (byte_arrays (mem rt)) (tcp_Payload tcp)] else [])"
    and "\<And>k' c. k' \<noteq> flow_key (byte_arrays (mem rt)) ipl tcp \<Longrightarrow> connections pcs k' = Some c \<Longrightarrow>
           chunk_bytes (mem rt') c = chunk_bytes (mem rt) c"
    and "\<And>a. a < next_addr (mem rt) \<Longrightarrow> byte_arrays (mem rt') a = byte_arrays (mem rt) a"
    and "next_addr (mem rt) \<le> next_addr (mem rt')"
proof -
  define k where "k = flow_key (byte_arrays (mem rt)) ipl tcp"
  define payload where "payload = tcp_Payload tcp"
  obtain c1 rt2 where t: "touch pcs rt ipl tcp = (c1, rt2)" by (cases "touch pcs rt ipl tcp")
  obtain c2 rt3 where r: "record_payload rt2 c1 payload = (c2, rt3)"
    by (cases "record_payload rt2 c1 payload")
  have res: "pcs' = pcs\<lparr>connections := (connections pcs)(k \<mapsto> c2)\<rparr>" "rt' = rt3"
    using hp unfolding handlePacket_accepted[OF l1 l2 acc] by (simp_all add: t r[unfolded payload_def] k_def)
  note ts = touch_spec[OF tok t, folded k_def]
  have ok: "heap_ok (mem rt)" using tok by (simp add: table_ok_def)
  have main: "table_ok pcs' (mem rt')
    \<and> (\<forall>k' c. k' \<noteq> k \<longrightarrow> connections pcs k' = Some c \<longrightarrow> chunk_bytes (mem rt') c = chunk_bytes (mem rt) c)
    \<and> chunk_bytes (mem rt') c2 = old_chunks pcs (mem rt) k
             @ (if 0 < sl_len payload then [elems (byte_arrays (mem rt)) payload] else [])
    \<and> (\<forall>a. a < next_addr (mem rt) \<longrightarrow> byte_arrays (mem rt') a = byte_arrays (mem rt) a)
    \<and> next_addr (mem rt) \<le> next_addr (mem rt')"
  proof (cases "0 < sl_len payload")
    case False
    then have e: "c2 = c1" "rt3 = rt2" using r by (simp_all add: record_payload_empty)
    have m: "mem rt' = mem rt" by (simp add: res e ts(1))
    have C: "sl_ptr (IncomingData c1) = sl_ptr (old_incoming pcs k)
            \<or> (\<exists>a. sl_ptr (IncomingData c1) = Some a \<and> next_addr (mem rt) \<le> a)"
      by (simp add: ts(6))
    note tu = table_update_ok[OF tok ok ts(5) _ _ C]
    have "table_ok pcs' (mem rt')" unfolding m res(1) e(1) by (rule tu(1)) simp_all
    then show ?thesis using False ts(7) by (simp add: m e)
  next
    case True
    have ok2: "heap_ok (mem rt2)" and c1ok: "conn_ok (mem rt2) c1"
      and v2: "valid_slice (byte_arrays (mem rt2)) payload"
      using ok ts(5) v by (simp_all add: ts(1) payload_def)
    note rn = record_payload_nonempty[OF ok2 c1ok v2 True r, unfolded ts(1)]
    note rb = record_payload_bytes[OF ok2 c1ok v2 True r, unfolded ts(1)]
    note rc = record_payload_conn[OF ok2 c1ok v2 True r, unfolded ts(1)]
    obtain incoming where inc: "c2 = c1\<lparr>IncomingData := incoming\<rparr>"
      "sl_ptr incoming = sl_ptr (IncomingData c1) \<and> sl_ptr incoming \<noteq> None
          \<or> sl_ptr incoming = Some (Suc (next_addr (mem rt)))"
      using rn(1) by blast
    have C: "sl_ptr (IncomingData c2) = sl_ptr (old_incoming pcs k)
            \<or> (\<exists>a. sl_ptr (IncomingData c2) = Some a \<and> next_addr (mem rt) \<le> a)"
      using inc(2) by (auto simp: inc(1) ts(6))
    have B: "\<And>a. a < next_addr (mem rt) \<Longrightarrow> sl_ptr (old_incoming pcs k) \<noteq> Some a \<Longrightarrow>
              payload_arrays (mem rt3) a = payload_arrays (mem rt) a"
      using rn(3) by (simp add: ts(6))
    note tu = table_update_ok[OF tok rb(2) rc(1) rb(1) B C]
    have "next_addr (mem rt) \<le> next_addr (mem rt3)" using rn(4) by simp
    then show ?thesis
      using True tu rc(2) rb(1) by (simp add: res ts(7))
  qed
  have look: "connections pcs' k = Some c2" by (simp add: res)
  show "table_ok pcs' (mem rt')" using main by blast
  show "\<And>k'. k' \<noteq> flow_key (byte_arrays (mem rt)) ipl tcp \<Longrightarrow> connections pcs' k' = connections pcs k'"
    by (simp add: res k_def)
  show "\<exists>c'. connections pcs' (flow_key (byte_arrays (mem rt)) ipl tcp) = Some c' \<and>
           chunk_bytes (mem rt') c' = old_chunks pcs (mem rt) (flow_key (byte_arrays (mem rt)) ipl tcp)
             @ (if 0 < sl_len (tcp_Payload tcp) then [elems (byte_arrays (mem rt)) (tcp_Payload tcp)] else [])"
    using main look unfolding k_def payload_def by blast
  show "\<And>k' c. k' \<noteq> flow_key (byte_arrays (mem rt)) ipl tcp \<Longrightarrow> connections pcs k' = Some c \<Longrightarrow>
           chunk_bytes (mem rt') c = chunk_bytes (mem rt) c"
    using main unfolding k_def by blast
  show "\<And>a. a < next_addr (mem rt) \<Longrightarrow> byte_arrays (mem rt') a = byte_arrays (mem rt) a"
    using main by blast
  show "next_addr (mem rt) \<le> next_addr (mem rt')" using main by blast
qed

lemma flow_key_inj:
  assumes "length (elems A (ipv4_SrcIP ipl)) = 4" "length (elems A (ipv4_DstIP ipl)) = 4"
    "length (elems A (ipv4_SrcIP ipl')) = 4" "length (elems A (ipv4_DstIP ipl')) = 4"
  shows "flow_key A ipl tcp = flow_key A ipl' tcp' \<longleftrightarrow>
     elems A (ipv4_SrcIP ipl) = elems A (ipv4_SrcIP ipl')
     \<and> elems A (ipv4_DstIP ipl) = elems A (ipv4_DstIP ipl')
     \<and> tcp_SrcPort tcp = tcp_SrcPort tcp' \<and> tcp_DstPort tcp = tcp_DstPort tcp'"
  using IP_text_inj4[OF assms(1) assms(3)] IP_text_inj4[OF assms(2) assms(4)]
  by (auto simp: flow_key_def IP_String_def)

lemma accepts_layers:
  assumes "accepts pcs A p"
  obtains ipl tcp where "LayerTypeIPv4 p = Some ipl" "LayerTypeTCP p = Some tcp"
    "packet_key A p = Some (flow_key A ipl tcp)" "packet_payload p = tcp_Payload tcp"
  using assms by (auto simp: accepts_def packet_key_def packet_payload_def split: option.splits)

lemma accepts_config:
  "ip pcs' = ip pcs \<Longrightarrow> port pcs' = port pcs \<Longrightarrow> accepts pcs' A p = accepts pcs A p"
  by (simp add: accepts_def split: option.splits)

text \<open>
  What a frame's slices read does not change when the heap only grows: the guards, the key
  and the payload bytes of a valid frame are the same in the later heap.
\<close>

lemma packet_frame:
  assumes ok: "heap_ok h" and p: "packet_ok h p"
    and same: "\<And>a. a < next_addr h \<Longrightarrow> byte_arrays h' a = byte_arrays h a"
  shows "packet_ok h' p"
    and "accepts pcs (byte_arrays h') p = accepts pcs (byte_arrays h) p"
    and "packet_key (byte_arrays h') p = packet_key (byte_arrays h) p"
    and "elems (byte_arrays h') (packet_payload p) = elems (byte_arrays h) (packet_payload p)"
proof -
  have pl: "valid_slice (byte_arrays h) (packet_payload p)" using p by (simp add: packet_ok_def)
  note fp = bytes_frame[OF ok pl same]
  show "elems (byte_arrays h') (packet_payload p) = elems (byte_arrays h) (packet_payload p)"
    by (rule fp(2))
  have ips: "\<And>ipl. LayerTypeIPv4 p = Some ipl \<Longrightarrow>
      valid_slice (byte_arrays h') (ipv4_SrcIP ipl) \<and> valid_slice (byte_arrays h') (ipv4_DstIP ipl)
      \<and> IP_String (byte_arrays h') (ipv4_SrcIP ipl) = IP_String (byte_arrays h) (ipv4_SrcIP ipl)
      \<and> IP_String (byte_arrays h') (ipv4_DstIP ipl) = IP_String (byte_arrays h) (ipv4_DstIP ipl)"
  proof -
    fix ipl assume l: "LayerTypeIPv4 p = Some ipl"
    then have v: "valid_slice (byte_arrays h) (ipv4_SrcIP ipl)" "valid_slice (byte_arrays h) (ipv4_DstIP ipl)"
      using p by (simp_all add: packet_ok_def)
    show "valid_slice (byte_arrays h') (ipv4_SrcIP ipl) \<and> valid_slice (byte_arrays h') (ipv4_DstIP ipl)
      \<and> IP_String (byte_arrays h') (ipv4_SrcIP ipl) = IP_String (byte_arrays h) (ipv4_SrcIP ipl)
      \<and> IP_String (byte_arrays h') (ipv4_DstIP ipl) = IP_String (byte_arrays h) (ipv4_DstIP ipl)"
      using bytes_frame[OF ok v(1) same] bytes_frame[OF ok v(2) same] by (simp add: IP_String_def)
  qed
  show "packet_ok h' p"
    using ips fp(1) by (auto simp: packet_ok_def split: option.splits)
  show "accepts pcs (byte_arrays h') p = accepts pcs (byte_arrays h) p"
    using ips by (auto simp: accepts_def split: option.splits)
  show "packet_key (byte_arrays h') p = packet_key (byte_arrays h) p"
    using ips by (auto simp: packet_key_def flow_key_def split: option.splits)
qed

lemma handlePacket_record:
  assumes acc: "accepts pcs (byte_arrays (mem rt)) p" and pk: "packet_key (byte_arrays (mem rt)) p = Some k"
    and hp: "handlePacket pcs rt p = (pcs', rt')"
    and c: "connections pcs k = Some c"
  shows "\<exists>t s. connections pcs' k = Some (c\<lparr>LastSeen := t, IncomingData := s\<rparr>)"
proof -
  obtain ipl tcp where l: "LayerTypeIPv4 p = Some ipl" "LayerTypeTCP p = Some tcp"
    "packet_key (byte_arrays (mem rt)) p = Some (flow_key (byte_arrays (mem rt)) ipl tcp)"
    using accepts_layers[OF acc] by metis
  have k: "k = flow_key (byte_arrays (mem rt)) ipl tcp" using pk l(3) by simp
  obtain c2 rt3 where r: "record_payload (rt\<lparr>clock_reads := Suc (clock_reads rt)\<rparr>)
      (c\<lparr>LastSeen := clock rt (clock_reads rt)\<rparr>) (tcp_Payload tcp) = (c2, rt3)"
    by (cases "record_payload (rt\<lparr>clock_reads := Suc (clock_reads rt)\<rparr>)
      (c\<lparr>LastSeen := clock rt (clock_reads rt)\<rparr>) (tcp_Payload tcp)")
  have "\<exists>s. c2 = c\<lparr>LastSeen := clock rt (clock_reads rt), IncomingData := s\<rparr>"
  proof (cases "0 < sl_len (tcp_Payload tcp)")
    case True
    then show ?thesis
      using r by (auto simp: record_payload_def Let_def split: prod.splits)
  next
    case False
    then have "c2 = c\<lparr>LastSeen := clock rt (clock_reads rt)\<rparr>"
      using r by (simp add: record_payload_def)
    then have "c2 = c\<lparr>LastSeen := clock rt (clock_reads rt), IncomingData := IncomingData c\<rparr>"
      by simp
    then show ?thesis by blast
  qed
  moreover have "connections pcs' k = Some c2"
    using hp c unfolding handlePacket_accepted[OF l(1,2) acc] k by (auto simp: touch_def r)
  ultimately show ?thesis by blast
qed

lemma handlePacket_other_key:
  assumes acc: "accepts pcs (byte_arrays (mem rt)) p" and pk: "packet_key (byte_arrays (mem rt)) p \<noteq> Some k"
    and hp: "handlePacket pcs rt p = (pcs', rt')"
  shows "connections pcs' k = connections pcs k"
proof -
  obtain ipl tcp where l: "LayerTypeIPv4 p = Some ipl" "LayerTypeTCP p = Some tcp"
    "packet_key (byte_arrays (mem rt)) p = Some (flow_key (byte_arrays (mem rt)) ipl tcp)"
    using accepts_layers[OF acc] by metis
  have k: "k \<noteq> flow_key (byte_arrays (mem rt)) ipl tcp" using pk l(3) by auto
  show ?thesis
    using hp k unfolding handlePacket_accepted[OF l(1,2) acc] by (auto split: prod.splits)
qed

lemma handlePacket_dom:
  assumes acc: "accepts pcs (byte_arrays (mem rt)) p" and pk: "packet_key (byte_arrays (mem rt)) p = Some k"
    and hp: "handlePacket pcs rt p = (pcs', rt')"
  shows "connections pcs' k \<noteq> None"
proof -
  obtain ipl tcp where l: "LayerTypeIPv4 p = Some ipl" "LayerTypeTCP p = Some tcp"
    "packet_key (byte_arrays (mem rt)) p = Some (flow_key (byte_arrays (mem rt)) ipl tcp)"
    using accepts_layers[OF acc] by metis
  have k: "k = flow_key (byte_arrays (mem rt)) ipl tcp" using pk l(3) by simp
  show ?thesis
    using hp unfolding handlePacket_accepted[OF l(1,2) acc] k by (auto split: prod.splits)
qed

lemma tracked_payloads_frame:
  assumes ok: "heap_ok h" and v: "\<forall>p\<in>set ps. packet_ok h p"
    and same: "\<And>a. a < next_addr h \<Longrightarrow> byte_arrays h' a = byte_arrays h a"
    and cfg: "ip pcs' = ip pcs" "port pcs' = port pcs"
  shows "tracked_payloads pcs' h' k ps = tracked_payloads pcs h k ps"
proof -
  have 1: "\<And>p. p \<in> set ps \<Longrightarrow>
      elems (byte_arrays h') (packet_payload p) = elems (byte_arrays h) (packet_payload p)"
    using packet_frame(4)[OF ok _ same] v by blast
  have 2: "\<And>p. p \<in> set ps \<Longrightarrow>
      accepts pcs' (byte_arrays h') p = accepts pcs (byte_arrays h) p"
    using packet_frame(2)[OF ok _ same] v accepts_config[OF cfg] by blast
  have 3: "\<And>p. p \<in> set ps \<Longrightarrow> packet_key (byte_arrays h') p = packet_key (byte_arrays h) p"
    using packet_frame(3)[OF ok _ same] v by blast
  have f: "filter (\<lambda>p. accepts pcs' (byte_arrays h') p \<and> packet_key (byte_arrays h') p = Some k
                    \<and> 0 < sl_len (packet_payload p)) ps
      = filter (\<lambda>p. accepts pcs (byte_arrays h) p \<and> packet_key (byte_arrays h) p = Some k
                    \<and> 0 < sl_len (packet_payload p)) ps"
    by (rule filter_cong) (use 2 3 in auto)
  show ?thesis
    unfolding tracked_payloads_def f by (rule map_cong) (use 1 in auto)
qed

lemma handlePacket_chunks_step:
  assumes tok: "table_ok pcs (mem rt)" and v: "packet_ok (mem rt) p"
    and hp: "handlePacket pcs rt p = (pcs', rt')"
  shows "table_ok pcs' (mem rt')"
    and "old_chunks pcs' (mem rt') k = old_chunks pcs (mem rt) k @ tracked_payloads pcs (mem rt) k [p]"
    and "\<And>a. a < next_addr (mem rt) \<Longrightarrow> byte_arrays (mem rt') a = byte_arrays (mem rt) a"
proof -
  have all: "table_ok pcs' (mem rt')
    \<and> old_chunks pcs' (mem rt') k = old_chunks pcs (mem rt) k @ tracked_payloads pcs (mem rt) k [p]
    \<and> (\<forall>a. a < next_addr (mem rt) \<longrightarrow> byte_arrays (mem rt') a = byte_arrays (mem rt) a)"
  proof (cases "accepts pcs (byte_arrays (mem rt)) p")
    case False
    then have "pcs' = pcs" "rt' = rt"
      using hp handlePacket_rejected[of pcs rt p] by simp_all
    then show ?thesis using tok False by (simp add: tracked_payloads_def)
  next
    case True
    note acc = True
    obtain ipl tcp where l: "LayerTypeIPv4 p = Some ipl" "LayerTypeTCP p = Some tcp"
      "packet_key (byte_arrays (mem rt)) p = Some (flow_key (byte_arrays (mem rt)) ipl tcp)" "packet_payload p = tcp_Payload tcp"
      using accepts_layers[OF True] by metis
    have v': "valid_slice (byte_arrays (mem rt)) (tcp_Payload tcp)"
      using v l(4) by (simp add: packet_ok_def)
    note st = handlePacket_step[OF tok acc l(1,2) v' hp]
    have "old_chunks pcs' (mem rt') k = old_chunks pcs (mem rt) k @ tracked_payloads pcs (mem rt) k [p]"
    proof (cases "k = flow_key (byte_arrays (mem rt)) ipl tcp")
      case k: True
      obtain c' where c': "connections pcs' (flow_key (byte_arrays (mem rt)) ipl tcp) = Some c'"
        "chunk_bytes (mem rt') c' = old_chunks pcs (mem rt) (flow_key (byte_arrays (mem rt)) ipl tcp)
             @ (if 0 < sl_len (tcp_Payload tcp) then [elems (byte_arrays (mem rt)) (tcp_Payload tcp)] else [])"
        using st(3) by blast
      have "old_chunks pcs' (mem rt') k = chunk_bytes (mem rt') c'"
        by (simp add: old_chunks_def k c'(1))
      then show ?thesis
        using c'(2) True by (simp add: tracked_payloads_def k l(3,4))
    next
      case k: False
      have same: "connections pcs' k = connections pcs k" by (rule st(2)[OF k])
      have "old_chunks pcs' (mem rt') k = old_chunks pcs (mem rt) k"
      proof (cases "connections pcs k")
        case None
        then show ?thesis by (simp add: old_chunks_def same)
      next
        case (Some c)
        then show ?thesis using st(4)[OF k Some] by (simp add: old_chunks_def same)
      qed
      then show ?thesis using k by (simp add: tracked_payloads_def l(3))
    qed
    then show ?thesis using st(1,5) by blast
  qed
  show "table_ok pcs' (mem rt')"
    and "old_chunks pcs' (mem rt') k = old_chunks pcs (mem rt) k @ tracked_payloads pcs (mem rt) k [p]"
    and "\<And>a. a < next_addr (mem rt) \<Longrightarrow> byte_arrays (mem rt') a = byte_arrays (mem rt) a"
    using all by blast+
qed

text \<open>One frame handled: what the rest of the sequence needs of the new state.\<close>

lemma handlePacket_seq_step:
  assumes tok: "table_ok pcs (mem rt)" and v: "packet_ok (mem rt) p"
    and vs: "\<forall>q\<in>set ps. packet_ok (mem rt) q"
    and hp: "handlePacket pcs rt p = (pcs1, rt1)"
  shows "table_ok pcs1 (mem rt1)" and "\<forall>q\<in>set ps. packet_ok (mem rt1) q"
    and "\<forall>q\<in>set ps. accepts pcs1 (byte_arrays (mem rt1)) q = accepts pcs (byte_arrays (mem rt)) q"
    and "\<forall>q\<in>set ps. packet_key (byte_arrays (mem rt1)) q = packet_key (byte_arrays (mem rt)) q"
proof -
  note st = handlePacket_chunks_step[OF tok v hp]
  have ok: "heap_ok (mem rt)" using tok by (simp add: table_ok_def)
  have cfg: "ip pcs1 = ip pcs" "port pcs1 = port pcs" using handlePacket_config[OF hp] by simp_all
  show "table_ok pcs1 (mem rt1)" by (rule st(1))
  show "\<forall>q\<in>set ps. packet_ok (mem rt1) q"
    using packet_frame(1)[OF ok _ st(3)] vs by blast
  show "\<forall>q\<in>set ps. accepts pcs1 (byte_arrays (mem rt1)) q = accepts pcs (byte_arrays (mem rt)) q"
    using packet_frame(2)[OF ok _ st(3)] vs accepts_config[OF cfg] by blast
  show "\<forall>q\<in>set ps. packet_key (byte_arrays (mem rt1)) q = packet_key (byte_arrays (mem rt)) q"
    using packet_frame(3)[OF ok _ st(3)] vs by blast
qed

lemma tracked_payloads_Cons:
  "tracked_payloads pcs h k (p # ps) = tracked_payloads pcs h k [p] @ tracked_payloads pcs h k ps"
  by (simp add: tracked_payloads_def)

lemma handlePackets_chunks:
  "table_ok pcs (mem rt) \<Longrightarrow> \<forall>p\<in>set ps. packet_ok (mem rt) p \<Longrightarrow>
   handlePackets pcs rt ps = (pcs', rt') \<Longrightarrow>
   table_ok pcs' (mem rt') \<and>
   (\<forall>k. old_chunks pcs' (mem rt') k = old_chunks pcs (mem rt) k @ tracked_payloads pcs (mem rt) k ps)"
proof (induction ps arbitrary: pcs rt)
  case Nil
  then show ?case by (simp add: tracked_payloads_def)
next
  case (Cons p ps)
  obtain pcs1 rt1 where hp: "handlePacket pcs rt p = (pcs1, rt1)" by (cases "handlePacket pcs rt p")
  have rest: "handlePackets pcs1 rt1 ps = (pcs', rt')" using Cons.prems(3) by (simp add: hp)
  have vp: "packet_ok (mem rt) p" using Cons.prems(2) by simp
  have vps: "\<forall>q\<in>set ps. packet_ok (mem rt) q" using Cons.prems(2) by simp
  note st = handlePacket_chunks_step[OF Cons.prems(1) vp hp]
  note ss = handlePacket_seq_step[OF Cons.prems(1) vp vps hp]
  have ok: "heap_ok (mem rt)" using Cons.prems(1) by (simp add: table_ok_def)
  note cfg = handlePacket_config[OF hp]
  have tr: "\<And>k. tracked_payloads pcs1 (mem rt1) k ps = tracked_payloads pcs (mem rt) k ps"
    using tracked_payloads_frame[OF ok vps st(3)] cfg by blast
  note ih = Cons.IH[OF ss(1) ss(2) rest]
  show ?case
  proof (intro conjI allI)
    show "table_ok pcs' (mem rt')" using ih by blast
  next
    fix k
    have "old_chunks pcs' (mem rt') k = old_chunks pcs1 (mem rt1) k @ tracked_payloads pcs1 (mem rt1) k ps"
      using ih by blast
    also have "\<dots> = (old_chunks pcs (mem rt) k @ tracked_payloads pcs (mem rt) k [p]) @ tracked_payloads pcs (mem rt) k ps"
      by (simp only: st(2) tr)
    finally show "old_chunks pcs' (mem rt') k = old_chunks pcs (mem rt) k @ tracked_payloads pcs (mem rt) k (p # ps)"
      by (simp add: tracked_payloads_Cons[of pcs "mem rt" k p ps])
  qed
qed

lemma handlePacket_key_cases:
  assumes hp: "handlePacket pcs rt p = (pcs', rt')"
  shows "(accepts pcs (byte_arrays (mem rt)) p \<and> packet_key (byte_arrays (mem rt)) p = Some k
           \<and> connections pcs' k \<noteq> None
           \<and> (\<forall>c. connections pcs k = Some c \<longrightarrow>
                 (\<exists>t s. connections pcs' k = Some (c\<lparr>LastSeen := t, IncomingData := s\<rparr>))))
         \<or> (\<not> (accepts pcs (byte_arrays (mem rt)) p \<and> packet_key (byte_arrays (mem rt)) p = Some k)
             \<and> connections pcs' k = connections pcs k)"
proof (cases "accepts pcs (byte_arrays (mem rt)) p")
  case False
  then show ?thesis using hp handlePacket_rejected[OF False] by auto
next
  case True
  show ?thesis
  proof (cases "packet_key (byte_arrays (mem rt)) p = Some k")
    case pk: True
    show ?thesis
      using handlePacket_dom[OF True pk hp] handlePacket_record[OF True pk hp] True pk by blast
  next
    case pk: False
    show ?thesis using handlePacket_other_key[OF True pk hp] pk by blast
  qed
qed

lemma handlePackets_config:
  "handlePackets pcs rt ps = (pcs', rt') \<Longrightarrow> ip pcs' = ip pcs \<and> port pcs' = port pcs"
proof (induction ps arbitrary: pcs rt)
  case Nil
  then show ?case by simp
next
  case (Cons p ps)
  obtain pcs1 rt1 where hp: "handlePacket pcs rt p = (pcs1, rt1)" by (cases "handlePacket pcs rt p")
  have rest: "handlePackets pcs1 rt1 ps = (pcs', rt')" using Cons.prems by (simp add: hp)
  show ?case using Cons.IH[OF rest] handlePacket_config[OF hp] by simp
qed

lemma handlePackets_record:
  "connections pcs k = Some c \<Longrightarrow> handlePackets pcs rt ps = (pcs', rt') \<Longrightarrow>
   \<exists>t s. connections pcs' k = Some (c\<lparr>LastSeen := t, IncomingData := s\<rparr>)"
proof (induction ps arbitrary: pcs rt c)
  case Nil
  then have "connections pcs' k = Some (c\<lparr>LastSeen := LastSeen c, IncomingData := IncomingData c\<rparr>)"
    by simp
  then show ?case by blast
next
  case (Cons p ps)
  obtain pcs1 rt1 where hp: "handlePacket pcs rt p = (pcs1, rt1)" by (cases "handlePacket pcs rt p")
  have rest: "handlePackets pcs1 rt1 ps = (pcs', rt')" using Cons.prems(2) by (simp add: hp)
  have "\<exists>t s. connections pcs1 k = Some (c\<lparr>LastSeen := t, IncomingData := s\<rparr>)"
  proof -
    have "connections pcs1 k = connections pcs k \<Longrightarrow> ?thesis"
    proof -
      assume "connections pcs1 k = connections pcs k"
      then have "connections pcs1 k = Some (c\<lparr>LastSeen := LastSeen c, IncomingData := IncomingData c\<rparr>)"
        using Cons.prems(1) by simp
      then show ?thesis by blast
    qed
    then show ?thesis using handlePacket_key_cases[OF hp, of k] Cons.prems(1) by blast
  qed
  then obtain t s where c1: "connections pcs1 k = Some (c\<lparr>LastSeen := t, IncomingData := s\<rparr>)" by blast
  obtain t' s' where "connections pcs' k = Some (c\<lparr>LastSeen := t, IncomingData := s\<rparr>\<lparr>LastSeen := t', IncomingData := s'\<rparr>)"
    using Cons.IH[OF c1 rest] by blast
  then have "connections pcs' k = Some (c\<lparr>LastSeen := t', IncomingData := s'\<rparr>)" by simp
  then show ?case by blast
qed

lemma handlePackets_untouched:
  "table_ok pcs (mem rt) \<Longrightarrow> \<forall>p\<in>set ps. packet_ok (mem rt) p \<Longrightarrow>
   \<forall>p\<in>set ps. \<not> (accepts pcs (byte_arrays (mem rt)) p \<and> packet_key (byte_arrays (mem rt)) p = Some k) \<Longrightarrow>
   handlePackets pcs rt ps = (pcs', rt') \<Longrightarrow>
   connections pcs' k = connections pcs k"
proof (induction ps arbitrary: pcs rt)
  case Nil
  then show ?case by simp
next
  case (Cons p ps)
  obtain pcs1 rt1 where hp: "handlePacket pcs rt p = (pcs1, rt1)" by (cases "handlePacket pcs rt p")
  have rest: "handlePackets pcs1 rt1 ps = (pcs', rt')" using Cons.prems(4) by (simp add: hp)
  have vp: "packet_ok (mem rt) p" and vps: "\<forall>q\<in>set ps. packet_ok (mem rt) q"
    using Cons.prems(2) by simp_all
  note ss = handlePacket_seq_step[OF Cons.prems(1) vp vps hp]
  have 1: "connections pcs1 k = connections pcs k"
    using handlePacket_key_cases[OF hp, of k] Cons.prems(3) by auto
  have "\<forall>q\<in>set ps. \<not> (accepts pcs1 (byte_arrays (mem rt1)) q \<and> packet_key (byte_arrays (mem rt1)) q = Some k)"
    using Cons.prems(3) ss(3,4) by simp
  then show ?case using Cons.IH[OF ss(1) ss(2) _ rest] 1 by simp
qed

lemma handlePackets_dom:
  "table_ok pcs (mem rt) \<Longrightarrow> \<forall>p\<in>set ps. packet_ok (mem rt) p \<Longrightarrow>
   handlePackets pcs rt ps = (pcs', rt') \<Longrightarrow>
   (connections pcs' k \<noteq> None) =
     (connections pcs k \<noteq> None
      \<or> (\<exists>p\<in>set ps. accepts pcs (byte_arrays (mem rt)) p \<and> packet_key (byte_arrays (mem rt)) p = Some k))"
proof (induction ps arbitrary: pcs rt)
  case Nil
  then show ?case by simp
next
  case (Cons p ps)
  obtain pcs1 rt1 where hp: "handlePacket pcs rt p = (pcs1, rt1)" by (cases "handlePacket pcs rt p")
  have rest: "handlePackets pcs1 rt1 ps = (pcs', rt')" using Cons.prems(3) by (simp add: hp)
  have vp: "packet_ok (mem rt) p" and vps: "\<forall>q\<in>set ps. packet_ok (mem rt) q"
    using Cons.prems(2) by simp_all
  note ss = handlePacket_seq_step[OF Cons.prems(1) vp vps hp]
  have 1: "(connections pcs1 k \<noteq> None) =
      (connections pcs k \<noteq> None
       \<or> (accepts pcs (byte_arrays (mem rt)) p \<and> packet_key (byte_arrays (mem rt)) p = Some k))"
    using handlePacket_key_cases[OF hp, of k] by auto
  have 2: "(\<exists>q\<in>set ps. accepts pcs1 (byte_arrays (mem rt1)) q \<and> packet_key (byte_arrays (mem rt1)) q = Some k)
      = (\<exists>q\<in>set ps. accepts pcs (byte_arrays (mem rt)) q \<and> packet_key (byte_arrays (mem rt)) q = Some k)"
    using ss(3,4) by auto
  show ?case
    using Cons.IH[OF ss(1) ss(2) rest] 1 2 by auto
qed

section \<open>The example service, evaluated\<close>

lemma IP_text_example: "IP_text [219, 84, 200, 54] = ''219.84.200.54''"
  by code_simp

lemma IP_String_example: "IP_String (byte_arrays (mem rt0)) (ipv4_SrcIP ipl0) = ''219.84.200.54''"
proof -
  have "elems (byte_arrays (mem rt0)) (ipv4_SrcIP ipl0) = [219, 84, 200, 54]"
    by (simp add: elems_def rt0_def ipl0_def)
  then show ?thesis by (simp only: IP_String_def IP_text_example)
qed

lemma accepts_pkt0: "accepts pcs0 (byte_arrays (mem rt0)) pkt0"
proof -
  have "LayerTypeIPv4 pkt0 = Some ipl0" "LayerTypeTCP pkt0 = Some tcp0" by (simp_all add: pkt0_def)
  moreover have "tcp_SrcPort tcp0 = TCPPort (port pcs0)" by (simp add: tcp0_def pcs0_def TCPPort_def)
  moreover have "ip pcs0 = ''219.84.200.54''" by (simp add: pcs0_def)
  ultimately show ?thesis by (simp add: accepts_def IP_String_example)
qed

lemma not_accepts_other:
  "\<not> accepts pcs0 (byte_arrays (mem rt0)) pkt_other_port"
  "\<not> accepts pcs0 (byte_arrays (mem rt0)) pkt_not_ipv4"
  by (simp_all add: accepts_def pkt_other_port_def pkt_not_ipv4_def pcs0_def tcp0_def TCPPort_def)

lemma not_from_target_other:
  "\<not> from_target pcs0 (byte_arrays (mem rt0)) pkt_other_port"
  "\<not> from_target pcs0 (byte_arrays (mem rt0)) pkt_not_ipv4"
  by (simp_all add: from_target_def pkt_other_port_def pkt_not_ipv4_def pcs0_def tcp0_def)

lemma from_target_pkt0: "from_target pcs0 (byte_arrays (mem rt0)) pkt0"
proof -
  have "LayerTypeIPv4 pkt0 = Some ipl0" "LayerTypeTCP pkt0 = Some tcp0" by (simp_all add: pkt0_def)
  moreover have "uint (tcp_SrcPort tcp0) = port pcs0" by (simp add: tcp0_def pcs0_def)
  moreover have "ip pcs0 = ''219.84.200.54''" by (simp add: pcs0_def)
  ultimately show ?thesis by (simp add: from_target_def IP_String_example)
qed

lemma table_ok_0: "table_ok pcs0 (mem rt0)"
  by (simp add: table_ok_def pcs0_def rt0_def heap_ok_def)

lemma valid_payload_0: "valid_slice (byte_arrays (mem rt0)) (tcp_Payload tcp0)"
  by (simp add: valid_slice_def rt0_def tcp0_def)

lemma packet_ok_0:
  "packet_ok (mem rt0) pkt0" "packet_ok (mem rt0) pkt_other_port" "packet_ok (mem rt0) pkt_not_ipv4"
  by (simp_all add: packet_ok_def packet_payload_def pkt0_def pkt_other_port_def pkt_not_ipv4_def
      ipl0_def tcp0_def rt0_def valid_slice_def)

section \<open>Claims about frame handling\<close>

lemma handlePackets_filter_accepts:
  "table_ok pcs (mem rt) \<Longrightarrow> \<forall>p\<in>set ps. packet_ok (mem rt) p \<Longrightarrow>
   handlePackets pcs rt ps = handlePackets pcs rt (filter (accepts pcs (byte_arrays (mem rt))) ps)"
proof (induction ps arbitrary: pcs rt)
  case Nil
  show ?case by simp
next
  case (Cons p ps)
  have vp: "packet_ok (mem rt) p" and vps: "\<forall>q\<in>set ps. packet_ok (mem rt) q"
    using Cons.prems(2) by simp_all
  show ?case
  proof (cases "accepts pcs (byte_arrays (mem rt)) p")
    case False
    then show ?thesis
      using Cons.IH[OF Cons.prems(1) vps] by (simp add: handlePacket_rejected)
  next
    case True
    obtain pcs1 rt1 where hp: "handlePacket pcs rt p = (pcs1, rt1)" by (cases "handlePacket pcs rt p")
    note ss = handlePacket_seq_step[OF Cons.prems(1) vp vps hp]
    have f: "filter (accepts pcs1 (byte_arrays (mem rt1))) ps = filter (accepts pcs (byte_arrays (mem rt))) ps"
      by (rule filter_cong) (use ss(3) in auto)
    show ?thesis
      using True Cons.IH[OF ss(1) ss(2)] by (simp add: hp f)
  qed
qed

text \<open>
  C2: a frame that is not from the target (not IPv4, or not TCP, or its source address is
  not the configured address, or its source port is not the configured port) leaves the
  service and the whole runtime, heap and clock included, exactly as they were; so over
  any sequence of valid frames on a well-formed table the final state is the one reached
  on the target's frames alone. The configured port is a TCP port number (0 to 65535), as
  the capture filter requires; the code compares it after conversion to \<open>uint16\<close>.
\<close>

theorem C2_other_frames_are_noops:
  assumes "0 \<le> port pcs" and "port pcs < 65536"
  shows "(\<not> from_target pcs (byte_arrays (mem rt)) p \<longrightarrow> handlePacket pcs rt p = (pcs, rt))
       \<and> (table_ok pcs (mem rt) \<and> (\<forall>q\<in>set ps. packet_ok (mem rt) q) \<longrightarrow>
            handlePackets pcs rt ps
              = handlePackets pcs rt (filter (from_target pcs (byte_arrays (mem rt))) ps))"
proof -
  have eq: "accepts pcs (byte_arrays (mem rt)) = from_target pcs (byte_arrays (mem rt))"
    using accepts_port_range[OF assms] by blast
  have 1: "\<not> from_target pcs (byte_arrays (mem rt)) p \<longrightarrow> handlePacket pcs rt p = (pcs, rt)"
    using handlePacket_rejected[of pcs rt p] by (simp add: eq)
  have 2: "table_ok pcs (mem rt) \<and> (\<forall>q\<in>set ps. packet_ok (mem rt) q) \<longrightarrow>
            handlePackets pcs rt ps
              = handlePackets pcs rt (filter (from_target pcs (byte_arrays (mem rt))) ps)"
    using handlePackets_filter_accepts[of pcs rt ps] by (simp add: eq)
  show ?thesis by (intro conjI 1 2)
qed

theorem C2_other_frames_are_noops_witness:
  "0 \<le> port pcs0 \<and> port pcs0 < 65536
   \<and> \<not> from_target pcs0 (byte_arrays (mem rt0)) pkt_other_port
   \<and> handlePacket pcs0 rt0 pkt_other_port = (pcs0, rt0)
   \<and> \<not> from_target pcs0 (byte_arrays (mem rt0)) pkt_not_ipv4
   \<and> handlePacket pcs0 rt0 pkt_not_ipv4 = (pcs0, rt0)
   \<and> table_ok pcs0 (mem rt0)
   \<and> packet_ok (mem rt0) pkt0 \<and> packet_ok (mem rt0) pkt_other_port \<and> packet_ok (mem rt0) pkt_not_ipv4
   \<and> handlePackets pcs0 rt0 [pkt_not_ipv4, pkt0, pkt_other_port] = handlePackets pcs0 rt0 [pkt0]"
proof -
  have r: "0 \<le> port pcs0" "port pcs0 < 65536" by (simp_all add: pcs0_def)
  note th1 = C2_other_frames_are_noops[OF r, of rt0 pkt_other_port "[pkt_not_ipv4, pkt0, pkt_other_port]"]
  note th2 = C2_other_frames_are_noops[OF r, of rt0 pkt_not_ipv4 "[]"]
  have a: "handlePacket pcs0 rt0 pkt_other_port = (pcs0, rt0)"
    using th1 not_from_target_other(1) by blast
  have b: "handlePacket pcs0 rt0 pkt_not_ipv4 = (pcs0, rt0)"
    using th2 not_from_target_other(2) by blast
  have f: "filter (from_target pcs0 (byte_arrays (mem rt0))) [pkt_not_ipv4, pkt0, pkt_other_port] = [pkt0]"
    by (simp add: not_from_target_other from_target_pkt0)
  have c: "handlePackets pcs0 rt0 [pkt_not_ipv4, pkt0, pkt_other_port] = handlePackets pcs0 rt0 [pkt0]"
    using th1 table_ok_0 packet_ok_0 unfolding f by simp
  show ?thesis
    using r a b c not_from_target_other table_ok_0 packet_ok_0 by blast
qed

text \<open>
  Outside that range the comparison is on the low 16 bits: a service configured with the
  number 72436 accepts frames from port 6900.
\<close>

lemma TCPPort_out_of_range: "accepts (pcs0\<lparr>port := 72436\<rparr>) (byte_arrays (mem rt0)) pkt0"
proof -
  have "LayerTypeIPv4 pkt0 = Some ipl0" "LayerTypeTCP pkt0 = Some tcp0" by (simp_all add: pkt0_def)
  moreover have "tcp_SrcPort tcp0 = TCPPort 72436" by (simp add: tcp0_def TCPPort_def)
  moreover have "ip pcs0 = ''219.84.200.54''" by (simp add: pcs0_def)
  ultimately show ?thesis by (simp add: accepts_def IP_String_example)
qed

lemma handlePacket_next_addr:
  assumes tok: "table_ok pcs (mem rt)" and v: "packet_ok (mem rt) p"
    and hp: "handlePacket pcs rt p = (pcs', rt')"
  shows "next_addr (mem rt) \<le> next_addr (mem rt')"
proof (cases "accepts pcs (byte_arrays (mem rt)) p")
  case False
  then show ?thesis using hp handlePacket_rejected[of pcs rt p] by simp
next
  case True
  obtain ipl tcp where l: "LayerTypeIPv4 p = Some ipl" "LayerTypeTCP p = Some tcp"
    "packet_key (byte_arrays (mem rt)) p = Some (flow_key (byte_arrays (mem rt)) ipl tcp)"
    "packet_payload p = tcp_Payload tcp"
    using accepts_layers[OF True] by metis
  have v': "valid_slice (byte_arrays (mem rt)) (tcp_Payload tcp)"
    using v l(4) by (simp add: packet_ok_def)
  show ?thesis by (rule handlePacket_step(6)[OF tok True l(1,2) v' hp])
qed

text \<open>Handling frames never writes to a byte array that existed before.\<close>

lemma handlePackets_bytes_frame:
  "table_ok pcs (mem rt) \<Longrightarrow> \<forall>p\<in>set ps. packet_ok (mem rt) p \<Longrightarrow>
   handlePackets pcs rt ps = (pcs', rt') \<Longrightarrow> a < next_addr (mem rt) \<Longrightarrow>
   byte_arrays (mem rt') a = byte_arrays (mem rt) a"
proof (induction ps arbitrary: pcs rt)
  case Nil
  then show ?case by simp
next
  case (Cons p ps)
  obtain pcs1 rt1 where hp: "handlePacket pcs rt p = (pcs1, rt1)" by (cases "handlePacket pcs rt p")
  have rest: "handlePackets pcs1 rt1 ps = (pcs', rt')" using Cons.prems(3) by (simp add: hp)
  have vp: "packet_ok (mem rt) p" and vps: "\<forall>q\<in>set ps. packet_ok (mem rt) q"
    using Cons.prems(2) by simp_all
  note st = handlePacket_chunks_step[OF Cons.prems(1) vp hp]
  note ss = handlePacket_seq_step[OF Cons.prems(1) vp vps hp]
  have lt: "a < next_addr (mem rt1)"
    using handlePacket_next_addr[OF Cons.prems(1) vp hp] Cons.prems(4) by simp
  have "byte_arrays (mem rt') a = byte_arrays (mem rt1) a"
    by (rule Cons.IH[OF ss(1) ss(2) rest lt])
  then show ?case using st(3)[OF Cons.prems(4)] by simp
qed

text \<open>
  C3: frames are grouped by key, and for 4-byte addresses the key determines the 4-tuple.
  Starting from a well-formed table, after any sequence of frames whose slices are valid
  (keys, guards and payloads below are read in the heap before the first frame): the table
  is well formed again; the chunks held under a key are the chunks held before followed by
  the payloads of exactly the accepted frames with that key, in arrival order; a key is
  present iff it was present or some accepted frame carried it; a record that existed
  keeps its identity (its address slices, ports, start time), only \<open>LastSeen\<close> and
  \<open>IncomingData\<close> change; a key that no accepted frame carries keeps its record and its
  chunks untouched; no byte array that existed before, so none that a frame or a record's
  address aliases, is written; and two frames with 4-byte addresses have the same key
  exactly when they agree on the bytes of the source address, the bytes of the destination
  address, the source port and the destination port.
\<close>

theorem C3_one_record_per_tuple:
  assumes "table_ok pcs (mem rt)"
    and "\<forall>p\<in>set ps. packet_ok (mem rt) p"
    and "handlePackets pcs rt ps = (pcs', rt')"
  shows "table_ok pcs' (mem rt')
     \<and> (\<forall>k. old_chunks pcs' (mem rt') k = old_chunks pcs (mem rt) k @ tracked_payloads pcs (mem rt) k ps)
     \<and> (\<forall>k. (connections pcs' k \<noteq> None) =
              (connections pcs k \<noteq> None
               \<or> (\<exists>p\<in>set ps. accepts pcs (byte_arrays (mem rt)) p
                                \<and> packet_key (byte_arrays (mem rt)) p = Some k)))
     \<and> (\<forall>k c. connections pcs k = Some c \<longrightarrow>
              (\<exists>t s. connections pcs' k = Some (c\<lparr>LastSeen := t, IncomingData := s\<rparr>)))
     \<and> (\<forall>k. (\<forall>p\<in>set ps. \<not> (accepts pcs (byte_arrays (mem rt)) p
                                \<and> packet_key (byte_arrays (mem rt)) p = Some k)) \<longrightarrow>
              connections pcs' k = connections pcs k
              \<and> old_chunks pcs' (mem rt') k = old_chunks pcs (mem rt) k)
     \<and> (\<forall>a. a < next_addr (mem rt) \<longrightarrow> byte_arrays (mem rt') a = byte_arrays (mem rt) a)
     \<and> (\<forall>A ipl tcp ipl' tcp'.
            length (elems A (ipv4_SrcIP ipl)) = 4 \<and> length (elems A (ipv4_DstIP ipl)) = 4
            \<and> length (elems A (ipv4_SrcIP ipl')) = 4 \<and> length (elems A (ipv4_DstIP ipl')) = 4 \<longrightarrow>
            (flow_key A ipl tcp = flow_key A ipl' tcp') =
              (elems A (ipv4_SrcIP ipl) = elems A (ipv4_SrcIP ipl')
               \<and> elems A (ipv4_DstIP ipl) = elems A (ipv4_DstIP ipl')
               \<and> tcp_SrcPort tcp = tcp_SrcPort tcp' \<and> tcp_DstPort tcp = tcp_DstPort tcp'))"
proof -
  note ch = handlePackets_chunks[OF assms]
  have 1: "table_ok pcs' (mem rt')" using ch by blast
  have 2: "\<forall>k. old_chunks pcs' (mem rt') k = old_chunks pcs (mem rt) k @ tracked_payloads pcs (mem rt) k ps"
    using ch by blast
  have 3: "\<forall>k. (connections pcs' k \<noteq> None) =
              (connections pcs k \<noteq> None
               \<or> (\<exists>p\<in>set ps. accepts pcs (byte_arrays (mem rt)) p
                                \<and> packet_key (byte_arrays (mem rt)) p = Some k))"
    using handlePackets_dom[OF assms] by blast
  have 4: "\<forall>k c. connections pcs k = Some c \<longrightarrow>
              (\<exists>t s. connections pcs' k = Some (c\<lparr>LastSeen := t, IncomingData := s\<rparr>))"
    using handlePackets_record[OF _ assms(3)] by blast
  have 5: "\<forall>k. (\<forall>p\<in>set ps. \<not> (accepts pcs (byte_arrays (mem rt)) p
                                \<and> packet_key (byte_arrays (mem rt)) p = Some k)) \<longrightarrow>
              connections pcs' k = connections pcs k
              \<and> old_chunks pcs' (mem rt') k = old_chunks pcs (mem rt) k"
  proof (intro allI impI)
    fix k assume no: "\<forall>p\<in>set ps. \<not> (accepts pcs (byte_arrays (mem rt)) p
                                \<and> packet_key (byte_arrays (mem rt)) p = Some k)"
    then have "filter (\<lambda>p. accepts pcs (byte_arrays (mem rt)) p
        \<and> packet_key (byte_arrays (mem rt)) p = Some k \<and> 0 < sl_len (packet_payload p)) ps = []"
      by (auto simp: filter_empty_conv)
    then have "tracked_payloads pcs (mem rt) k ps = []" by (simp add: tracked_payloads_def)
    then have "old_chunks pcs' (mem rt') k = old_chunks pcs (mem rt) k" using 2 by simp
    then show "connections pcs' k = connections pcs k
              \<and> old_chunks pcs' (mem rt') k = old_chunks pcs (mem rt) k"
      using handlePackets_untouched[OF assms(1,2) no assms(3)] by simp
  qed
  have 6: "\<forall>a. a < next_addr (mem rt) \<longrightarrow> byte_arrays (mem rt') a = byte_arrays (mem rt) a"
    using handlePackets_bytes_frame[OF assms] by blast
  have 7: "\<forall>A ipl tcp ipl' tcp'.
            length (elems A (ipv4_SrcIP ipl)) = 4 \<and> length (elems A (ipv4_DstIP ipl)) = 4
            \<and> length (elems A (ipv4_SrcIP ipl')) = 4 \<and> length (elems A (ipv4_DstIP ipl')) = 4 \<longrightarrow>
            (flow_key A ipl tcp = flow_key A ipl' tcp') =
              (elems A (ipv4_SrcIP ipl) = elems A (ipv4_SrcIP ipl')
               \<and> elems A (ipv4_DstIP ipl) = elems A (ipv4_DstIP ipl')
               \<and> tcp_SrcPort tcp = tcp_SrcPort tcp' \<and> tcp_DstPort tcp = tcp_DstPort tcp')"
    using flow_key_inj by blast
  show ?thesis by (intro conjI 1 2 3 4 5 6 7)
qed

lemma ipl0_lengths:
  "length (elems (byte_arrays (mem rt0)) (ipv4_SrcIP ipl0)) = 4"
  "length (elems (byte_arrays (mem rt0)) (ipv4_DstIP ipl0)) = 4"
  by (simp_all add: elems_def rt0_def ipl0_def)

lemma packet_key_examples:
  "packet_key A pkt0 = Some (flow_key A ipl0 tcp0)"
  "packet_key A pkt_other_port = Some (flow_key A ipl0 (tcp0\<lparr>tcp_SrcPort := 443\<rparr>))"
  by (simp_all add: packet_key_def pkt0_def pkt_other_port_def)

lemma packet_payload_examples:
  "packet_payload pkt0 = tcp_Payload tcp0" "packet_payload pkt_other_port = tcp_Payload tcp0"
  "elems (byte_arrays (mem rt0)) (tcp_Payload tcp0) = [1, 2, 3]" "0 < sl_len (tcp_Payload tcp0)"
  by (simp_all add: packet_payload_def pkt0_def pkt_other_port_def elems_def rt0_def tcp0_def)

theorem C3_one_record_per_tuple_witness:
  "table_ok pcs0 (mem rt0)
   \<and> packet_ok (mem rt0) pkt0 \<and> packet_ok (mem rt0) pkt_other_port
   \<and> (\<exists>pcs' rt'. handlePackets pcs0 rt0 [pkt0, pkt_other_port, pkt0] = (pcs', rt')
         \<and> table_ok pcs' (mem rt')
         \<and> old_chunks pcs' (mem rt') (flow_key (byte_arrays (mem rt0)) ipl0 tcp0) = [[1, 2, 3], [1, 2, 3]]
         \<and> connections pcs' (flow_key (byte_arrays (mem rt0)) ipl0 tcp0) \<noteq> None
         \<and> connections pcs' (flow_key (byte_arrays (mem rt0)) ipl0 (tcp0\<lparr>tcp_SrcPort := 443\<rparr>)) = None
         \<and> byte_arrays (mem rt') 1 = Some [219, 84, 200, 54])
   \<and> flow_key (byte_arrays (mem rt0)) ipl0 tcp0
       \<noteq> flow_key (byte_arrays (mem rt0)) ipl0 (tcp0\<lparr>tcp_SrcPort := 443\<rparr>)"
proof -
  let ?A = "byte_arrays (mem rt0)"
  obtain pcs' rt' where h: "handlePackets pcs0 rt0 [pkt0, pkt_other_port, pkt0] = (pcs', rt')"
    by (cases "handlePackets pcs0 rt0 [pkt0, pkt_other_port, pkt0]")
  have vs: "\<forall>p\<in>set [pkt0, pkt_other_port, pkt0]. packet_ok (mem rt0) p"
    using packet_ok_0 by simp
  note th = C3_one_record_per_tuple[OF table_ok_0 vs h]
  have ne: "flow_key ?A ipl0 tcp0 \<noteq> flow_key ?A ipl0 (tcp0\<lparr>tcp_SrcPort := 443\<rparr>)"
  proof -
    have "(flow_key ?A ipl0 tcp0 = flow_key ?A ipl0 (tcp0\<lparr>tcp_SrcPort := 443\<rparr>)) =
              (elems ?A (ipv4_SrcIP ipl0) = elems ?A (ipv4_SrcIP ipl0)
               \<and> elems ?A (ipv4_DstIP ipl0) = elems ?A (ipv4_DstIP ipl0)
               \<and> tcp_SrcPort tcp0 = tcp_SrcPort (tcp0\<lparr>tcp_SrcPort := 443\<rparr>)
               \<and> tcp_DstPort tcp0 = tcp_DstPort (tcp0\<lparr>tcp_SrcPort := 443\<rparr>))"
      using th ipl0_lengths by blast
    then show ?thesis by (simp add: tcp0_def)
  qed
  have tp: "tracked_payloads pcs0 (mem rt0) (flow_key ?A ipl0 tcp0) [pkt0, pkt_other_port, pkt0] = [[1, 2, 3], [1, 2, 3]]"
    by (simp add: tracked_payloads_def accepts_pkt0 not_accepts_other packet_key_examples packet_payload_examples)
  have oc: "old_chunks pcs0 (mem rt0) (flow_key ?A ipl0 tcp0) = []"
    by (simp add: old_chunks_def pcs0_def)
  have c1: "old_chunks pcs' (mem rt') (flow_key ?A ipl0 tcp0) = [[1, 2, 3], [1, 2, 3]]"
    using th tp oc by simp
  have "\<exists>p\<in>set [pkt0, pkt_other_port, pkt0]. accepts pcs0 ?A p \<and> packet_key ?A p = Some (flow_key ?A ipl0 tcp0)"
    using accepts_pkt0 packet_key_examples(1) by simp
  then have c2: "connections pcs' (flow_key ?A ipl0 tcp0) \<noteq> None"
    using th by blast
  have "\<forall>p\<in>set [pkt0, pkt_other_port, pkt0]. \<not> (accepts pcs0 ?A p
      \<and> packet_key ?A p = Some (flow_key ?A ipl0 (tcp0\<lparr>tcp_SrcPort := 443\<rparr>)))"
    using not_accepts_other(1) ne by (simp add: packet_key_examples)
  then have "connections pcs' (flow_key ?A ipl0 (tcp0\<lparr>tcp_SrcPort := 443\<rparr>))
      = connections pcs0 (flow_key ?A ipl0 (tcp0\<lparr>tcp_SrcPort := 443\<rparr>))"
    using th by blast
  then have c3: "connections pcs' (flow_key ?A ipl0 (tcp0\<lparr>tcp_SrcPort := 443\<rparr>)) = None"
    by (simp add: pcs0_def)
  have "(1::nat) < next_addr (mem rt0)" by (simp add: rt0_def)
  then have "byte_arrays (mem rt') 1 = byte_arrays (mem rt0) 1" using th by blast
  then have c4: "byte_arrays (mem rt') 1 = Some [219, 84, 200, 54]" by (simp add: rt0_def)
  have t1: "table_ok pcs' (mem rt')" using th by blast
  show ?thesis
    using h t1 c1 c2 c3 c4 ne table_ok_0 packet_ok_0(1,2) by blast
qed

lemma handlePacket_payload_step:
  assumes tok: "table_ok pcs (mem rt)" and acc: "accepts pcs (byte_arrays (mem rt)) p"
    and l1: "LayerTypeIPv4 p = Some ipl" and l2: "LayerTypeTCP p = Some tcp"
    and v: "valid_slice (byte_arrays (mem rt)) (tcp_Payload tcp)"
    and hp: "handlePacket pcs rt p = (pcs', rt')"
    and c1: "c1 = (case connections pcs (flow_key (byte_arrays (mem rt)) ipl tcp) of
                     Some existing \<Rightarrow> existing\<lparr>LastSeen := clock rt (clock_reads rt)\<rparr>
                   | None \<Rightarrow>
                       \<lparr>SrcIP = ipv4_SrcIP ipl, DstIP = ipv4_DstIP ipl,
                        SrcPort = tcp_SrcPort tcp, DstPort = tcp_DstPort tcp,
                        StartTime = clock rt (clock_reads rt),
                        LastSeen = clock rt (Suc (Suc (clock_reads rt))),
                        IncomingData = nil_slice, IsFinished = False\<rparr>)"
  shows "sl_len (tcp_Payload tcp) = 0 \<Longrightarrow>
           mem rt' = mem rt
           \<and> pcs' = pcs\<lparr>connections := (connections pcs)(flow_key (byte_arrays (mem rt)) ipl tcp \<mapsto> c1)\<rparr>"
    and "0 < sl_len (tcp_Payload tcp) \<Longrightarrow>
           \<exists>incoming.
             pcs' = pcs\<lparr>connections := (connections pcs)(flow_key (byte_arrays (mem rt)) ipl tcp
                          \<mapsto> c1\<lparr>IncomingData := incoming\<rparr>)\<rparr>
             \<and> elems (payload_arrays (mem rt')) incoming =
                 elems (payload_arrays (mem rt)) (old_incoming pcs (flow_key (byte_arrays (mem rt)) ipl tcp))
                   @ [\<lparr>sl_ptr = Some (next_addr (mem rt)), sl_len = sl_len (tcp_Payload tcp),
                        sl_cap = sl_len (tcp_Payload tcp)\<rparr>]"
    and "0 < sl_len (tcp_Payload tcp) \<Longrightarrow>
           byte_arrays (mem rt') =
             (byte_arrays (mem rt))(next_addr (mem rt) \<mapsto> elems (byte_arrays (mem rt)) (tcp_Payload tcp))"
proof -
  define k where "k = flow_key (byte_arrays (mem rt)) ipl tcp"
  obtain c1' rt2 where t: "touch pcs rt ipl tcp = (c1', rt2)" by (cases "touch pcs rt ipl tcp")
  obtain c2 rt3 where r: "record_payload rt2 c1' (tcp_Payload tcp) = (c2, rt3)"
    by (cases "record_payload rt2 c1' (tcp_Payload tcp)")
  have res: "pcs' = pcs\<lparr>connections := (connections pcs)(k \<mapsto> c2)\<rparr>" "rt' = rt3"
    using hp unfolding handlePacket_accepted[OF l1 l2 acc] by (simp_all add: t r k_def)
  note ts = touch_spec[OF tok t, folded k_def]
  have ok: "heap_ok (mem rt)" using tok by (simp add: table_ok_def)
  have c1': "c1' = c1"
    using t unfolding c1 touch_def by (auto split: option.splits)
  show "sl_len (tcp_Payload tcp) = 0 \<Longrightarrow>
           mem rt' = mem rt
           \<and> pcs' = pcs\<lparr>connections := (connections pcs)(flow_key (byte_arrays (mem rt)) ipl tcp \<mapsto> c1)\<rparr>"
  proof -
    assume z: "sl_len (tcp_Payload tcp) = 0"
    have e: "c2 = c1'" "rt3 = rt2" using r z by (simp_all add: record_payload_empty)
    show ?thesis using res e ts(1) c1' by (simp add: k_def)
  qed
  have ok2: "heap_ok (mem rt2)" and c1ok: "conn_ok (mem rt2) c1'"
    and v2: "valid_slice (byte_arrays (mem rt2)) (tcp_Payload tcp)"
    using ok ts(5) v by (simp_all add: ts(1))
  show "0 < sl_len (tcp_Payload tcp) \<Longrightarrow>
           \<exists>incoming.
             pcs' = pcs\<lparr>connections := (connections pcs)(flow_key (byte_arrays (mem rt)) ipl tcp
                          \<mapsto> c1\<lparr>IncomingData := incoming\<rparr>)\<rparr>
             \<and> elems (payload_arrays (mem rt')) incoming =
                 elems (payload_arrays (mem rt)) (old_incoming pcs (flow_key (byte_arrays (mem rt)) ipl tcp))
                   @ [\<lparr>sl_ptr = Some (next_addr (mem rt)), sl_len = sl_len (tcp_Payload tcp),
                        sl_cap = sl_len (tcp_Payload tcp)\<rparr>]"
  proof -
    assume n: "0 < sl_len (tcp_Payload tcp)"
    note rn = record_payload_nonempty[OF ok2 c1ok v2 n r, unfolded ts(1)]
    obtain incoming where inc: "c2 = c1'\<lparr>IncomingData := incoming\<rparr>"
      "elems (payload_arrays (mem rt3)) incoming =
          elems (payload_arrays (mem rt)) (IncomingData c1')
            @ [\<lparr>sl_ptr = Some (next_addr (mem rt)), sl_len = sl_len (tcp_Payload tcp),
                 sl_cap = sl_len (tcp_Payload tcp)\<rparr>]"
      using rn(1) by blast
    show ?thesis
      using inc res c1' ts(6) by (intro exI[of _ incoming]) (simp add: k_def)
  qed
  show "0 < sl_len (tcp_Payload tcp) \<Longrightarrow>
           byte_arrays (mem rt') =
             (byte_arrays (mem rt))(next_addr (mem rt) \<mapsto> elems (byte_arrays (mem rt)) (tcp_Payload tcp))"
  proof -
    assume n: "0 < sl_len (tcp_Payload tcp)"
    note rn = record_payload_nonempty[OF ok2 c1ok v2 n r, unfolded ts(1)]
    show ?thesis using rn(2) res by simp
  qed
qed

text \<open>
  C5: let an accepted frame with IPv4 layer \<open>ipl\<close> and TCP layer \<open>tcp\<close> be handled on a
  well-formed table, \<open>k\<close> being its key and \<open>c1\<close> the record that the lookup found (with
  \<open>LastSeen\<close> stamped) or created. If the payload is empty the heap is unchanged and the
  table is the old one with \<open>c1\<close> under \<open>k\<close>: on a record that existed, only \<open>LastSeen\<close> has
  changed. If the payload is not empty, the record under \<open>k\<close> is \<open>c1\<close> with a chunk sequence
  that is the old sequence followed by one new chunk \<open>data\<close>; \<open>data\<close> has the payload's length
  and points to an array that did not exist before the call, so to no array of the
  capture buffer; that array holds the payload's bytes; no array that existed is written;
  and whatever is later written to any other array, the capture buffer included, the
  chunk still reads as the payload's bytes. So the chunk sequence grows, by exactly one,
  if and only if the payload is not empty.
\<close>

theorem C5_chunk_iff_payload:
  assumes "table_ok pcs (mem rt)" and "accepts pcs (byte_arrays (mem rt)) p"
    and "LayerTypeIPv4 p = Some ipl" and "LayerTypeTCP p = Some tcp"
    and "valid_slice (byte_arrays (mem rt)) (tcp_Payload tcp)"
    and "handlePacket pcs rt p = (pcs', rt')"
    and "k = flow_key (byte_arrays (mem rt)) ipl tcp"
    and "c1 = (case connections pcs k of
                 Some existing \<Rightarrow> existing\<lparr>LastSeen := clock rt (clock_reads rt)\<rparr>
               | None \<Rightarrow>
                   \<lparr>SrcIP = ipv4_SrcIP ipl, DstIP = ipv4_DstIP ipl,
                    SrcPort = tcp_SrcPort tcp, DstPort = tcp_DstPort tcp,
                    StartTime = clock rt (clock_reads rt),
                    LastSeen = clock rt (Suc (Suc (clock_reads rt))),
                    IncomingData = nil_slice, IsFinished = False\<rparr>)"
    and "data = \<lparr>sl_ptr = Some (next_addr (mem rt)), sl_len = sl_len (tcp_Payload tcp),
                  sl_cap = sl_len (tcp_Payload tcp)\<rparr>"
  shows "(sl_len (tcp_Payload tcp) = 0 \<longrightarrow>
            mem rt' = mem rt \<and> pcs' = pcs\<lparr>connections := (connections pcs)(k \<mapsto> c1)\<rparr>)
       \<and> (0 < sl_len (tcp_Payload tcp) \<longrightarrow>
            (\<exists>incoming.
               pcs' = pcs\<lparr>connections := (connections pcs)(k \<mapsto> c1\<lparr>IncomingData := incoming\<rparr>)\<rparr>
               \<and> elems (payload_arrays (mem rt')) incoming
                   = elems (payload_arrays (mem rt)) (old_incoming pcs k) @ [data])
            \<and> byte_arrays (mem rt) (next_addr (mem rt)) = None
            \<and> sl_ptr data \<noteq> sl_ptr (tcp_Payload tcp)
            \<and> elems (byte_arrays (mem rt')) data = elems (byte_arrays (mem rt)) (tcp_Payload tcp)
            \<and> (\<forall>a. a \<noteq> next_addr (mem rt) \<longrightarrow> byte_arrays (mem rt') a = byte_arrays (mem rt) a)
            \<and> (\<forall>b bs. b \<noteq> next_addr (mem rt) \<longrightarrow>
                  elems ((byte_arrays (mem rt'))(b \<mapsto> bs)) data
                    = elems (byte_arrays (mem rt)) (tcp_Payload tcp)))
       \<and> (\<exists>c'. connections pcs' k = Some c'
             \<and> length (elems (payload_arrays (mem rt')) (IncomingData c'))
                 = length (elems (payload_arrays (mem rt)) (old_incoming pcs k))
                   + (if 0 < sl_len (tcp_Payload tcp) then 1 else 0))"
proof -
  note st = handlePacket_payload_step[OF assms(1-6) assms(8)[unfolded assms(7)], folded assms(7)]
  have ok: "heap_ok (mem rt)" using assms(1) by (simp add: table_ok_def)
  have fresh: "byte_arrays (mem rt) (next_addr (mem rt)) = None"
    using ok by (auto simp: heap_ok_def)
  have E: "sl_len (tcp_Payload tcp) = 0 \<longrightarrow>
            mem rt' = mem rt \<and> pcs' = pcs\<lparr>connections := (connections pcs)(k \<mapsto> c1)\<rparr>"
    using st(1) by blast
  have N: "0 < sl_len (tcp_Payload tcp) \<longrightarrow>
            (\<exists>incoming.
               pcs' = pcs\<lparr>connections := (connections pcs)(k \<mapsto> c1\<lparr>IncomingData := incoming\<rparr>)\<rparr>
               \<and> elems (payload_arrays (mem rt')) incoming
                   = elems (payload_arrays (mem rt)) (old_incoming pcs k) @ [data])
            \<and> byte_arrays (mem rt) (next_addr (mem rt)) = None
            \<and> sl_ptr data \<noteq> sl_ptr (tcp_Payload tcp)
            \<and> elems (byte_arrays (mem rt')) data = elems (byte_arrays (mem rt)) (tcp_Payload tcp)
            \<and> (\<forall>a. a \<noteq> next_addr (mem rt) \<longrightarrow> byte_arrays (mem rt') a = byte_arrays (mem rt) a)
            \<and> (\<forall>b bs. b \<noteq> next_addr (mem rt) \<longrightarrow>
                  elems ((byte_arrays (mem rt'))(b \<mapsto> bs)) data
                    = elems (byte_arrays (mem rt)) (tcp_Payload tcp))"
  proof
    assume n: "0 < sl_len (tcp_Payload tcp)"
    note b = st(3)[OF n]
    have len: "length (elems (byte_arrays (mem rt)) (tcp_Payload tcp)) = sl_len (tcp_Payload tcp)"
      by (rule length_elems[OF assms(5)])
    have rd: "\<And>A. A (next_addr (mem rt)) = Some (elems (byte_arrays (mem rt)) (tcp_Payload tcp)) \<Longrightarrow>
        elems A data = elems (byte_arrays (mem rt)) (tcp_Payload tcp)"
      using len by (simp add: elems_def assms(9))
    have p: "sl_ptr data \<noteq> sl_ptr (tcp_Payload tcp)"
    proof
      assume "sl_ptr data = sl_ptr (tcp_Payload tcp)"
      then have "sl_ptr (tcp_Payload tcp) = Some (next_addr (mem rt))" by (simp add: assms(9))
      then show False using assms(5) fresh n by (auto simp: valid_slice_def)
    qed
    have c: "elems (byte_arrays (mem rt')) data = elems (byte_arrays (mem rt)) (tcp_Payload tcp)"
      by (rule rd) (simp add: b)
    have f: "\<forall>a. a \<noteq> next_addr (mem rt) \<longrightarrow> byte_arrays (mem rt') a = byte_arrays (mem rt) a"
      by (simp add: b)
    have i: "\<forall>b bs. b \<noteq> next_addr (mem rt) \<longrightarrow>
                  elems ((byte_arrays (mem rt'))(b \<mapsto> bs)) data
                    = elems (byte_arrays (mem rt)) (tcp_Payload tcp)"
    proof (intro allI impI)
      fix b' bs assume "b' \<noteq> next_addr (mem rt)"
      then show "elems ((byte_arrays (mem rt'))(b' \<mapsto> bs)) data
                    = elems (byte_arrays (mem rt)) (tcp_Payload tcp)"
        by (intro rd) (simp add: b)
    qed
    show "(\<exists>incoming.
               pcs' = pcs\<lparr>connections := (connections pcs)(k \<mapsto> c1\<lparr>IncomingData := incoming\<rparr>)\<rparr>
               \<and> elems (payload_arrays (mem rt')) incoming
                   = elems (payload_arrays (mem rt)) (old_incoming pcs k) @ [data])
            \<and> byte_arrays (mem rt) (next_addr (mem rt)) = None
            \<and> sl_ptr data \<noteq> sl_ptr (tcp_Payload tcp)
            \<and> elems (byte_arrays (mem rt')) data = elems (byte_arrays (mem rt)) (tcp_Payload tcp)
            \<and> (\<forall>a. a \<noteq> next_addr (mem rt) \<longrightarrow> byte_arrays (mem rt') a = byte_arrays (mem rt) a)
            \<and> (\<forall>b bs. b \<noteq> next_addr (mem rt) \<longrightarrow>
                  elems ((byte_arrays (mem rt'))(b \<mapsto> bs)) data
                    = elems (byte_arrays (mem rt)) (tcp_Payload tcp))"
      using st(2)[OF n, folded assms(9)] fresh p c f i by (intro conjI)
  qed
  have L: "\<exists>c'. connections pcs' k = Some c'
             \<and> length (elems (payload_arrays (mem rt')) (IncomingData c'))
                 = length (elems (payload_arrays (mem rt)) (old_incoming pcs k))
                   + (if 0 < sl_len (tcp_Payload tcp) then 1 else 0)"
  proof (cases "0 < sl_len (tcp_Payload tcp)")
    case True
    obtain incoming where inc:
      "pcs' = pcs\<lparr>connections := (connections pcs)(k \<mapsto> c1\<lparr>IncomingData := incoming\<rparr>)\<rparr>"
      "elems (payload_arrays (mem rt')) incoming
         = elems (payload_arrays (mem rt)) (old_incoming pcs k) @ [data]"
      using st(2)[OF True, folded assms(9)] by blast
    show ?thesis using True inc by (intro exI[of _ "c1\<lparr>IncomingData := incoming\<rparr>"]) simp
  next
    case False
    then have z: "sl_len (tcp_Payload tcp) = 0" by simp
    have "IncomingData c1 = old_incoming pcs k"
      by (simp add: assms(8) old_incoming_def split: option.splits)
    then show ?thesis using st(1)[OF z] z by (intro exI[of _ c1]) simp
  qed
  show ?thesis by (intro conjI E N L)
qed

lemma pkt_ack_facts:
  "LayerTypeIPv4 pkt_ack = Some ipl0" "LayerTypeTCP pkt_ack = Some (tcp0\<lparr>tcp_Payload := nil_slice\<rparr>)"
  "packet_ok (mem rt0) pkt_ack" "accepts pcs0 (byte_arrays (mem rt0)) pkt_ack"
  "packet_key A pkt_ack = Some (flow_key A ipl0 tcp0)"
proof -
  show l: "LayerTypeIPv4 pkt_ack = Some ipl0" "LayerTypeTCP pkt_ack = Some (tcp0\<lparr>tcp_Payload := nil_slice\<rparr>)"
    by (simp_all add: pkt_ack_def)
  show "packet_ok (mem rt0) pkt_ack"
    by (simp add: packet_ok_def packet_payload_def pkt_ack_def ipl0_def rt0_def valid_slice_def nil_slice_def)
  have "tcp_SrcPort (tcp0\<lparr>tcp_Payload := nil_slice\<rparr>) = TCPPort (port pcs0)"
    by (simp add: tcp0_def pcs0_def TCPPort_def)
  moreover have "ip pcs0 = ''219.84.200.54''" by (simp add: pcs0_def)
  ultimately show "accepts pcs0 (byte_arrays (mem rt0)) pkt_ack"
    using l by (simp add: accepts_def IP_String_example)
  show "packet_key A pkt_ack = Some (flow_key A ipl0 tcp0)"
    by (simp add: packet_key_def pkt_ack_def flow_key_def)
qed

theorem C5_chunk_iff_payload_witness:
  "table_ok pcs0 (mem rt0) \<and> accepts pcs0 (byte_arrays (mem rt0)) pkt0
   \<and> LayerTypeIPv4 pkt0 = Some ipl0 \<and> LayerTypeTCP pkt0 = Some tcp0
   \<and> valid_slice (byte_arrays (mem rt0)) (tcp_Payload tcp0)
   \<and> 0 < sl_len (tcp_Payload tcp0)
   \<and> (\<exists>pcs1 rt1 c pcs2 rt2.
         handlePacket pcs0 rt0 pkt0 = (pcs1, rt1)
         \<and> connections pcs1 (flow_key (byte_arrays (mem rt0)) ipl0 tcp0) = Some c
         \<and> elems (payload_arrays (mem rt1)) (IncomingData c) = [\<lparr>sl_ptr = Some 3, sl_len = 3, sl_cap = 3\<rparr>]
         \<and> elems (byte_arrays (mem rt1)) \<lparr>sl_ptr = Some 3, sl_len = 3, sl_cap = 3\<rparr> = [1, 2, 3]
         \<and> elems ((byte_arrays (mem rt1))(0 \<mapsto> [9, 9, 9])) \<lparr>sl_ptr = Some 3, sl_len = 3, sl_cap = 3\<rparr>
             = [1, 2, 3]
         \<and> table_ok pcs1 (mem rt1) \<and> accepts pcs1 (byte_arrays (mem rt1)) pkt_ack
         \<and> sl_len (tcp_Payload (tcp0\<lparr>tcp_Payload := nil_slice\<rparr>)) = 0
         \<and> handlePacket pcs1 rt1 pkt_ack = (pcs2, rt2)
         \<and> mem rt2 = mem rt1
         \<and> pcs2 = pcs1\<lparr>connections := (connections pcs1)(flow_key (byte_arrays (mem rt0)) ipl0 tcp0
                        \<mapsto> c\<lparr>LastSeen := clock rt1 (clock_reads rt1)\<rparr>)\<rparr>)"
proof -
  let ?k = "flow_key (byte_arrays (mem rt0)) ipl0 tcp0"
  let ?d = "\<lparr>sl_ptr = Some 3, sl_len = 3, sl_cap = 3\<rparr> :: slice"
  obtain pcs1 rt1 where h1: "handlePacket pcs0 rt0 pkt0 = (pcs1, rt1)"
    by (cases "handlePacket pcs0 rt0 pkt0")
  obtain pcs2 rt2 where h2: "handlePacket pcs1 rt1 pkt_ack = (pcs2, rt2)"
    by (cases "handlePacket pcs1 rt1 pkt_ack")
  have l: "LayerTypeIPv4 pkt0 = Some ipl0" "LayerTypeTCP pkt0 = Some tcp0" by (simp_all add: pkt0_def)
  have n: "0 < sl_len (tcp_Payload tcp0)" by (simp add: tcp0_def)
  have d: "?d = \<lparr>sl_ptr = Some (next_addr (mem rt0)), sl_len = sl_len (tcp_Payload tcp0),
                  sl_cap = sl_len (tcp_Payload tcp0)\<rparr>"
    by (simp add: rt0_def tcp0_def)
  have none: "connections pcs0 ?k = None" by (simp add: pcs0_def)
  note th1 = C5_chunk_iff_payload[OF table_ok_0 accepts_pkt0 l valid_payload_0 h1 refl refl d]
  obtain incoming where inc:
    "pcs1 = pcs0\<lparr>connections := (connections pcs0)(?k \<mapsto>
        (case connections pcs0 ?k of
           Some existing \<Rightarrow> existing\<lparr>LastSeen := clock rt0 (clock_reads rt0)\<rparr>
         | None \<Rightarrow>
             \<lparr>SrcIP = ipv4_SrcIP ipl0, DstIP = ipv4_DstIP ipl0,
              SrcPort = tcp_SrcPort tcp0, DstPort = tcp_DstPort tcp0,
              StartTime = clock rt0 (clock_reads rt0),
              LastSeen = clock rt0 (Suc (Suc (clock_reads rt0))),
              IncomingData = nil_slice, IsFinished = False\<rparr>)\<lparr>IncomingData := incoming\<rparr>)\<rparr>"
    "elems (payload_arrays (mem rt1)) incoming
       = elems (payload_arrays (mem rt0)) (old_incoming pcs0 ?k) @ [?d]"
    using th1 n by blast
  obtain c where c: "connections pcs1 ?k = Some c" "IncomingData c = incoming"
    unfolding inc(1) none by simp
  have old: "elems (payload_arrays (mem rt0)) (old_incoming pcs0 ?k) = []"
    by (simp add: old_incoming_def none elems_def nil_slice_def)
  have a1: "elems (payload_arrays (mem rt1)) (IncomingData c) = [?d]"
    using inc(2) by (simp add: c(2) old)
  have a2: "elems (byte_arrays (mem rt1)) ?d = [1, 2, 3]"
    using th1 n packet_payload_examples(3) by simp
  have "(0::nat) \<noteq> next_addr (mem rt0)" by (simp add: rt0_def)
  then have a3: "elems ((byte_arrays (mem rt1))(0 \<mapsto> [9, 9, 9])) ?d = [1, 2, 3]"
    using th1 n packet_payload_examples(3) by simp
  have av: "\<forall>q\<in>set [pkt_ack]. packet_ok (mem rt0) q" using pkt_ack_facts(3) by simp
  note ss = handlePacket_seq_step[OF table_ok_0 packet_ok_0(1) av h1]
  have acc2: "accepts pcs1 (byte_arrays (mem rt1)) pkt_ack"
    using ss(3) pkt_ack_facts(4) by simp
  have "packet_key (byte_arrays (mem rt1)) pkt_ack = packet_key (byte_arrays (mem rt0)) pkt_ack"
    using ss(4) by simp
  then have k2: "?k = flow_key (byte_arrays (mem rt1)) ipl0 (tcp0\<lparr>tcp_Payload := nil_slice\<rparr>)"
    by (simp add: pkt_ack_facts(5)) (simp add: flow_key_def)
  have vn: "valid_slice (byte_arrays (mem rt1)) (tcp_Payload (tcp0\<lparr>tcp_Payload := nil_slice\<rparr>))"
    by (simp add: valid_slice_def nil_slice_def)
  have z: "sl_len (tcp_Payload (tcp0\<lparr>tcp_Payload := nil_slice\<rparr>)) = 0" by (simp add: nil_slice_def)
  note th2 = C5_chunk_iff_payload[OF ss(1) acc2 pkt_ack_facts(1,2) vn h2 k2 refl refl]
  have b1: "mem rt2 = mem rt1" using th2 z by blast
  have "pcs2 = pcs1\<lparr>connections := (connections pcs1)(?k \<mapsto>
      (case connections pcs1 ?k of
         Some existing \<Rightarrow> existing\<lparr>LastSeen := clock rt1 (clock_reads rt1)\<rparr>
       | None \<Rightarrow>
           \<lparr>SrcIP = ipv4_SrcIP ipl0, DstIP = ipv4_DstIP ipl0,
            SrcPort = tcp_SrcPort (tcp0\<lparr>tcp_Payload := nil_slice\<rparr>),
            DstPort = tcp_DstPort (tcp0\<lparr>tcp_Payload := nil_slice\<rparr>),
            StartTime = clock rt1 (clock_reads rt1),
            LastSeen = clock rt1 (Suc (Suc (clock_reads rt1))),
            IncomingData = nil_slice, IsFinished = False\<rparr>))\<rparr>"
    using th2 z by blast
  then have b2: "pcs2 = pcs1\<lparr>connections := (connections pcs1)(?k \<mapsto> c\<lparr>LastSeen := clock rt1 (clock_reads rt1)\<rparr>)\<rparr>"
    by (simp add: c(1))
  show ?thesis
    using table_ok_0 accepts_pkt0 l valid_payload_0 n h1 c(1) a1 a2 a3 ss(1) acc2 z h2 b1 b2
    by blast
qed

section \<open>The status text\<close>













section \<open>Stopping a capture\<close>

text \<open>
  C8: StopCapture always returns true. With no service it takes the no-service branch:
  the App, the services and the runtime are unchanged and only the two log lines are
  printed. With a service it cancels that service's context and clears the flag and the
  reference. In both cases the reference is nil afterwards, so a second call returns true
  and changes neither the App nor any service.
\<close>

theorem C8_StopCapture_idempotent:
  "fst (StopCapture m) = True
   \<and> (packetCaptureService (app m) = None \<longrightarrow>
        app (snd (StopCapture m)) = app m
        \<and> pcs_objects (snd (StopCapture m)) = pcs_objects m
        \<and> run_time (snd (StopCapture m)) = run_time m
        \<and> stdout (snd (StopCapture m)) =
            stdout m @ [''[StopCapture] entering ...'', ''[StopCapture] No capture service to stop.''])
   \<and> (\<forall>p. packetCaptureService (app m) = Some p \<longrightarrow>
        app (snd (StopCapture m)) = (app m)\<lparr>isCapturing := False, packetCaptureService := None\<rparr>
        \<and> (\<forall>s. pcs_objects m p = Some s \<longrightarrow>
              pcs_objects (snd (StopCapture m)) p = Some (s\<lparr>ctx_done := True\<rparr>))
        \<and> (\<forall>q. q \<noteq> p \<longrightarrow> pcs_objects (snd (StopCapture m)) q = pcs_objects m q))
   \<and> packetCaptureService (app (snd (StopCapture m))) = None
   \<and> fst (StopCapture (snd (StopCapture m))) = True
   \<and> app (snd (StopCapture (snd (StopCapture m)))) = app (snd (StopCapture m))
   \<and> pcs_objects (snd (StopCapture (snd (StopCapture m)))) = pcs_objects (snd (StopCapture m))
   \<and> run_time (snd (StopCapture (snd (StopCapture m)))) = run_time (snd (StopCapture m))"
proof -
  have ret: "\<And>x. fst (StopCapture x) = True"
    by (simp add: StopCapture_def Let_def split: option.splits)
  have none: "\<And>x. packetCaptureService (app x) = None \<Longrightarrow>
        app (snd (StopCapture x)) = app x
        \<and> pcs_objects (snd (StopCapture x)) = pcs_objects x
        \<and> run_time (snd (StopCapture x)) = run_time x
        \<and> stdout (snd (StopCapture x)) =
            stdout x @ [''[StopCapture] entering ...'', ''[StopCapture] No capture service to stop.'']"
    by (simp add: StopCapture_def Let_def)
  have some: "\<forall>p. packetCaptureService (app m) = Some p \<longrightarrow>
        app (snd (StopCapture m)) = (app m)\<lparr>isCapturing := False, packetCaptureService := None\<rparr>
        \<and> (\<forall>s. pcs_objects m p = Some s \<longrightarrow>
              pcs_objects (snd (StopCapture m)) p = Some (s\<lparr>ctx_done := True\<rparr>))
        \<and> (\<forall>q. q \<noteq> p \<longrightarrow> pcs_objects (snd (StopCapture m)) q = pcs_objects m q)"
    by (auto simp: StopCapture_def Let_def PacketCaptureService_StopCapture_def split: option.splits)
  have cleared: "packetCaptureService (app (snd (StopCapture m))) = None"
    by (simp add: StopCapture_def Let_def split: option.splits)
  note again = none[OF cleared]
  show ?thesis
    using ret[of m] ret[of "snd (StopCapture m)"] none[of m] some cleared again by blast
qed

theorem C8_StopCapture_idempotent_witness:
  "fst (StopCapture machine0) = True
   \<and> app (snd (StopCapture machine0)) = \<lparr>isCapturing = False, packetCaptureService = None\<rparr>
   \<and> pcs_objects (snd (StopCapture machine0)) 0 = Some (pcs0\<lparr>ctx_done := True\<rparr>)
   \<and> fst (StopCapture (snd (StopCapture machine0))) = True
   \<and> app (snd (StopCapture (snd (StopCapture machine0)))) = \<lparr>isCapturing = False, packetCaptureService = None\<rparr>
   \<and> pcs_objects (snd (StopCapture (snd (StopCapture machine0)))) 0 = Some (pcs0\<lparr>ctx_done := True\<rparr>)"
proof -
  have p: "packetCaptureService (app machine0) = Some 0" "pcs_objects machine0 0 = Some pcs0"
    "app machine0 = \<lparr>isCapturing = True, packetCaptureService = Some 0\<rparr>"
    by (simp_all add: machine0_def)
  note th = C8_StopCapture_idempotent[of machine0]
  have a: "app (snd (StopCapture machine0)) = \<lparr>isCapturing = False, packetCaptureService = None\<rparr>"
    using th p by simp
  have b: "pcs_objects (snd (StopCapture machine0)) 0 = Some (pcs0\<lparr>ctx_done := True\<rparr>)"
    using th p by blast
  have c: "app (snd (StopCapture (snd (StopCapture machine0)))) = app (snd (StopCapture machine0))"
    "pcs_objects (snd (StopCapture (snd (StopCapture machine0)))) = pcs_objects (snd (StopCapture machine0))"
    "fst (StopCapture (snd (StopCapture machine0))) = True" "fst (StopCapture machine0) = True"
    using th by blast+
  show ?thesis using a b c by simp
qed

section \<open>Decoding a flow; opening the interfaces\<close>







text \<open>
  C4: the claim is what the specification asks for, not what the code does. With two
  valid interfaces of which one fails to open (or to take the filter), \<open>log.Fatal\<close> ends
  the process, whichever goroutine runs first: the other interface does not go on
  capturing.
\<close>

lemma capture_goroutine_simps:
  "capture_goroutine d (Exited code) = Exited code"
  "capture_goroutine d (Running xs) =
     (if if_setup d = Sniffing then Running (xs @ [if_Name d]) else Exited 1)"
  by (simp_all add: capture_goroutine_def split: setup_result.splits)

lemma fold_capture_goroutine_Exited: "fold capture_goroutine ds (Exited code) = Exited code"
  by (induction ds) (simp_all add: capture_goroutine_simps)

lemma fold_capture_goroutine_Running:
  "fold capture_goroutine ds (Running xs) =
     (if \<forall>d\<in>set ds. if_setup d = Sniffing then Running (xs @ map if_Name ds) else Exited 1)"
proof (induction ds arbitrary: xs)
  case Nil
  show ?case by simp
next
  case (Cons d ds)
  show ?case
  proof (cases "if_setup d")
    case Sniffing
    then show ?thesis using Cons.IH[of "xs @ [if_Name d]"] by (simp add: capture_goroutine_simps)
  next
    case OpenError
    then show ?thesis by (simp add: capture_goroutine_simps fold_capture_goroutine_Exited)
  next
    case FilterError
    then show ?thesis by (simp add: capture_goroutine_simps fold_capture_goroutine_Exited)
  qed
qed

lemma StartCaptureAllInterfaces_Exited_iff:
  "StartCaptureAllInterfaces (Some ds) = Exited 1 \<longleftrightarrow> (\<exists>d\<in>set ds. if_valid d \<and> if_setup d \<noteq> Sniffing)"
  by (auto simp: StartCaptureAllInterfaces_def fold_capture_goroutine_Running)

theorem C4_one_failure_exits_process:
  "StartCaptureAllInterfaces (Some [eth0, eth1]) = Exited 1
   \<and> StartCaptureAllInterfaces (Some [eth1, eth0]) = Exited 1
   \<and> StartCaptureAllInterfaces (Some [eth1, eth0\<lparr>if_setup := FilterError\<rparr>]) = Exited 1
   \<and> StartCaptureAllInterfaces (Some [eth1]) = Running [''eth1'']"
  by (simp add: StartCaptureAllInterfaces_def capture_goroutine_simps eth0_def eth1_def)

section \<open>The close-notification channel\<close>

lemma handlePacket_flags:
  "handlePacket pcs rt \<lparr>LayerTypeIPv4 = ipl, LayerTypeTCP = Some (tcp\<lparr>tcp_FIN := f, tcp_RST := r\<rparr>)\<rparr>
   = handlePacket pcs rt \<lparr>LayerTypeIPv4 = ipl, LayerTypeTCP = Some tcp\<rparr>"
  by (cases ipl) (simp_all add: handlePacket_def)

lemma handlePacket_channel:
  "connCloseNotifyChannel (fst (handlePacket pcs rt p)) = connCloseNotifyChannel pcs"
  using handlePacket_config[of pcs rt p "fst (handlePacket pcs rt p)" "snd (handlePacket pcs rt p)"]
  by simp

lemma StopCapture_channel [simp]:
  "connCloseNotifyChannel (PacketCaptureService_StopCapture pcs) = connCloseNotifyChannel pcs"
  "ctx_done (PacketCaptureService_StopCapture pcs)"
  by (simp_all add: PacketCaptureService_StopCapture_def)

lemma StartCapture_setup_inv:
  assumes "channels_empty m"
    and "isCapturing (app m) \<longrightarrow> packetCaptureService (app m) \<noteq> None"
    and "StartCapture_setup loginServers name m = (act, m')"
  shows "channels_empty m'"
    and "isCapturing (app m') \<longrightarrow> packetCaptureService (app m') \<noteq> None"
    and "\<forall>out. act = Finished out \<longrightarrow> out = Return None"
  using assms
  by (auto simp: StartCapture_setup_def channels_empty_def NewPacketCaptureService_def
      split: option.splits if_splits)

lemma StartCapture_enter_inv:
  assumes ce: "channels_empty m"
    and ap: "isCapturing (app m) \<longrightarrow> packetCaptureService (app m) \<noteq> None"
    and en: "StartCapture_enter loginServers name m = (act, m')"
  shows "channels_empty m'"
    and "isCapturing (app m') \<longrightarrow> packetCaptureService (app m') \<noteq> None"
    and "\<forall>out. act = Finished out \<longrightarrow> out = Return None"
proof -
  have all: "channels_empty m' \<and> (isCapturing (app m') \<longrightarrow> packetCaptureService (app m') \<noteq> None)
      \<and> (\<forall>out. act = Finished out \<longrightarrow> out = Return None)"
  proof (cases "packetCaptureService (app m)")
    case None
    then have "\<not> isCapturing (app m)" using ap by simp
    then have "StartCapture_setup loginServers name m = (act, m')"
      using en None by (simp add: StartCapture_enter_def)
    then show ?thesis using StartCapture_setup_inv[OF ce ap] by blast
  next
    case (Some p)
    define m1 where "m1 = m\<lparr>pcs_objects :=
                    (case pcs_objects m p of
                       None \<Rightarrow> pcs_objects m
                     | Some s \<Rightarrow> (pcs_objects m)(p \<mapsto> PacketCaptureService_StopCapture s)),
                  app := (app m)\<lparr>isCapturing := False, packetCaptureService := None\<rparr>\<rparr>"
    have 1: "channels_empty m1"
      using ce by (auto simp: channels_empty_def m1_def split: option.splits if_splits)
    have 2: "isCapturing (app m1) \<longrightarrow> packetCaptureService (app m1) \<noteq> None"
      by (simp add: m1_def)
    have "StartCapture_setup loginServers name m1 = (act, m')"
      using en Some by (simp add: StartCapture_enter_def m1_def)
    then show ?thesis using StartCapture_setup_inv[OF 1 2] by blast
  qed
  show "channels_empty m'" using all by blast
  show "isCapturing (app m') \<longrightarrow> packetCaptureService (app m') \<noteq> None" using all by blast
  show "\<forall>out. act = Finished out \<longrightarrow> out = Return None" using all by blast
qed

lemma StopCapture_inv:
  assumes "channels_empty m"
  shows "channels_empty (snd (StopCapture m))"
    and "isCapturing (app m) \<longrightarrow> packetCaptureService (app m) \<noteq> None \<Longrightarrow>
         isCapturing (app (snd (StopCapture m))) \<longrightarrow> packetCaptureService (app (snd (StopCapture m))) \<noteq> None"
  using assms
  by (auto simp: StopCapture_def channels_empty_def Let_def split: option.splits if_splits)

lemma select_receive_None:
  "channels_empty (sys_machine s) \<Longrightarrow> select_receive parse s i = None"
  by (auto simp: select_receive_def channels_empty_def Let_def split: activation.splits option.splits list.splits)

lemma select_done_Some:
  assumes "select_done s i = Some s'"
  shows "i < length (calls s)"
    and "\<exists>a pattern pcs. calls s ! i = Looping a pattern \<and> pcs_objects (sys_machine s) a = Some pcs
           \<and> ctx_done pcs"
    and "s' = s\<lparr>calls := (calls s)[i := Finished (Return None)]\<rparr>"
  using assms
  by (auto simp: select_done_def split: if_splits activation.splits option.splits)

lemma step_inv:
  assumes inv: "session_inv s" and st: "step parse loginServers s e = Some s'"
  shows "session_inv s'"
proof -
  have ce: "channels_empty (sys_machine s)"
    and ap: "isCapturing (app (sys_machine s)) \<longrightarrow> packetCaptureService (app (sys_machine s)) \<noteq> None"
    and fin: "\<forall>act\<in>set (calls s). \<forall>out. act = Finished out \<longrightarrow> out = Return None"
    using inv by (simp_all add: session_inv_def)
  show ?thesis
  proof (cases e)
    case (Call name)
    obtain act m' where en: "StartCapture_enter loginServers name (sys_machine s) = (act, m')"
      by (cases "StartCapture_enter loginServers name (sys_machine s)")
    have s': "s' = s\<lparr>sys_machine := m', calls := calls s @ [act]\<rparr>"
      using st Call en by (simp add: step_def Let_def)
    show ?thesis
      using StartCapture_enter_inv[OF ce ap en] fin by (auto simp: session_inv_def s')
  next
    case Stop
    have s': "s' = s\<lparr>sys_machine := snd (StopCapture (sys_machine s))\<rparr>"
      using st Stop by (simp add: step_def Let_def)
    show ?thesis
      using StopCapture_inv[OF ce] ap fin by (simp add: session_inv_def s')
  next
    case (Frame a packet)
    obtain pcs where p: "pcs_objects (sys_machine s) a = Some pcs"
      using st Frame by (auto simp: step_def Let_def split: option.splits)
    obtain pcs' rt' where hp: "handlePacket pcs (run_time (sys_machine s)) packet = (pcs', rt')"
      by (cases "handlePacket pcs (run_time (sys_machine s)) packet")
    have s': "s' = s\<lparr>sys_machine := (sys_machine s)\<lparr>pcs_objects := (pcs_objects (sys_machine s))(a \<mapsto> pcs'),
                                                run_time := rt'\<rparr>\<rparr>"
      using st Frame p hp by (simp add: step_def Let_def)
    have "connCloseNotifyChannel pcs' = connCloseNotifyChannel pcs"
      using handlePacket_config[OF hp] by simp
    then have "connCloseNotifyChannel pcs' = []" using ce p by (simp add: channels_empty_def)
    then have "channels_empty (sys_machine s')"
      using ce by (auto simp: channels_empty_def s')
    then show ?thesis using ap fin by (simp add: session_inv_def s')
  next
    case (Receive i)
    then show ?thesis using st select_receive_None[OF ce] by (simp add: step_def Let_def)
  next
    case (Done i)
    then have "select_done s i = Some s'" using st by (simp add: step_def Let_def)
    note d = select_done_Some[OF this]
    have "\<forall>act\<in>set ((calls s)[i := Finished (Return None)]). \<forall>out. act = Finished out \<longrightarrow> out = Return None"
      using fin by (auto dest!: set_update_subset_insert[THEN subsetD])
    then show ?thesis using ce ap by (simp add: session_inv_def d(3))
  qed
qed

lemma run_inv:
  "session_inv s \<Longrightarrow> run parse loginServers s es = Some s' \<Longrightarrow> session_inv s'"
proof (induction es arbitrary: s)
  case Nil
  then show ?case by simp
next
  case (Cons e es)
  obtain s1 where s1: "step parse loginServers s e = Some s1" "run parse loginServers s1 es = Some s'"
    using Cons.prems(2) by (auto split: option.splits)
  show ?case by (rule Cons.IH[OF step_inv[OF Cons.prems(1) s1(1)] s1(2)])
qed

lemma init_inv: "session_inv (init_system rt)"
  by (simp add: session_inv_def init_system_def channels_empty_def)

text \<open>
  The only event that takes a call out of its loop is its \<open>ctx.Done()\<close> branch, with the
  context of its service cancelled; the call then returns nil.
\<close>

lemma step_exit:
  assumes inv: "session_inv s" and st: "step parse loginServers s e = Some s'"
    and i: "i < length (calls s)" and lp: "calls s ! i = Looping a pattern"
    and ex: "calls s' ! i \<noteq> Looping a pattern"
  shows "e = Done i \<and> calls s' ! i = Finished (Return None)
         \<and> (\<exists>pcs. pcs_objects (sys_machine s) a = Some pcs \<and> ctx_done pcs)"
proof (cases e)
  case (Call name)
  then have "calls s' ! i = calls s ! i"
    using st i by (auto simp: step_def Let_def nth_append split: prod.splits)
  then show ?thesis using lp ex by simp
next
  case Stop
  then have "calls s' = calls s" using st by (auto simp: step_def Let_def)
  then show ?thesis using lp ex by simp
next
  case (Frame b packet)
  then have "calls s' = calls s" using st by (auto simp: step_def Let_def split: option.splits prod.splits)
  then show ?thesis using lp ex by simp
next
  case (Receive j)
  have "channels_empty (sys_machine s)" using inv by (simp add: session_inv_def)
  then show ?thesis using Receive st select_receive_None by (simp add: step_def Let_def)
next
  case (Done j)
  then have "select_done s j = Some s'" using st by (simp add: step_def Let_def)
  note d = select_done_Some[OF this]
  have ji: "j = i"
  proof (rule ccontr)
    assume "j \<noteq> i"
    then have "calls s' ! i = calls s ! i" by (simp add: d(3))
    then show False using lp ex by simp
  qed
  show ?thesis using d i lp Done by (auto simp: ji)
qed

text \<open>
  The receive branch is not a stub: with a sender waiting on the channel of its service, a
  call in its loop can take it.
\<close>

lemma select_receive_enabled:
  assumes "i < length (calls s)" "calls s ! i = Looping a pattern"
    "pcs_objects (sys_machine s) a = Some pcs" "connCloseNotifyChannel pcs = connection # waiting"
  shows "step parse loginServers s (Receive i) \<noteq> None"
  using assms
  by (auto simp: step_def Let_def select_receive_def Let_def split: option.splits prod.splits)

text \<open>
  C9: start from the system after \<open>NewApp\<close> and let any sequence of events happen
  (calls of \<open>StartCapture\<close> and \<open>StopCapture\<close>, frames handled by capture goroutines,
  branches of the \<open>select\<close> loops). In the state reached: on the channel of every service
  no sender is waiting, since nothing was ever sent; so the receive branch of no call is
  ready; every call that is over returned nil; and whatever event takes a call out of its
  loop, it is that call's \<open>ctx.Done()\<close> branch, taken with the context of its service
  cancelled, and the call returns nil. In \<open>handlePacket\<close> the FIN and RST flags of a frame
  have no effect at all on the result, and no frame changes the channel.
\<close>

theorem C9_no_close_notification:
  assumes "run parse loginServers (init_system rt) es = Some s"
  shows "(\<forall>a pcs. pcs_objects (sys_machine s) a = Some pcs \<longrightarrow> connCloseNotifyChannel pcs = [])
       \<and> (\<forall>i. step parse loginServers s (Receive i) = None)
       \<and> (\<forall>i out. i < length (calls s) \<and> calls s ! i = Finished out \<longrightarrow> out = Return None)
       \<and> (\<forall>e s' i a pattern.
             step parse loginServers s e = Some s' \<and> i < length (calls s)
             \<and> calls s ! i = Looping a pattern \<and> calls s' ! i \<noteq> Looping a pattern \<longrightarrow>
             e = Done i \<and> calls s' ! i = Finished (Return None)
             \<and> (\<exists>pcs. pcs_objects (sys_machine s) a = Some pcs \<and> ctx_done pcs))
       \<and> (\<forall>pcs r ipl tcp fin rst.
             handlePacket pcs r \<lparr>LayerTypeIPv4 = ipl, LayerTypeTCP = Some (tcp\<lparr>tcp_FIN := fin, tcp_RST := rst\<rparr>)\<rparr>
             = handlePacket pcs r \<lparr>LayerTypeIPv4 = ipl, LayerTypeTCP = Some tcp\<rparr>)
       \<and> (\<forall>pcs r p. connCloseNotifyChannel (fst (handlePacket pcs r p)) = connCloseNotifyChannel pcs)"
proof -
  have inv: "session_inv s" by (rule run_inv[OF init_inv assms])
  have ce: "channels_empty (sys_machine s)" using inv by (simp add: session_inv_def)
  have 1: "\<forall>a pcs. pcs_objects (sys_machine s) a = Some pcs \<longrightarrow> connCloseNotifyChannel pcs = []"
    using ce by (simp add: channels_empty_def)
  have 2: "\<forall>i. step parse loginServers s (Receive i) = None"
    using select_receive_None[OF ce] by (simp add: step_def)
  have 3: "\<forall>i out. i < length (calls s) \<and> calls s ! i = Finished out \<longrightarrow> out = Return None"
  proof (intro allI impI)
    fix i out assume a: "i < length (calls s) \<and> calls s ! i = Finished out"
    then have "Finished out \<in> set (calls s)" by (metis nth_mem)
    then show "out = Return None" using inv by (simp add: session_inv_def)
  qed
  have 4: "\<forall>e s' i a pattern.
             step parse loginServers s e = Some s' \<and> i < length (calls s)
             \<and> calls s ! i = Looping a pattern \<and> calls s' ! i \<noteq> Looping a pattern \<longrightarrow>
             e = Done i \<and> calls s' ! i = Finished (Return None)
             \<and> (\<exists>pcs. pcs_objects (sys_machine s) a = Some pcs \<and> ctx_done pcs)"
    using step_exit[OF inv] by blast
  have 5: "\<forall>pcs r ipl tcp fin rst.
             handlePacket pcs r \<lparr>LayerTypeIPv4 = ipl, LayerTypeTCP = Some (tcp\<lparr>tcp_FIN := fin, tcp_RST := rst\<rparr>)\<rparr>
             = handlePacket pcs r \<lparr>LayerTypeIPv4 = ipl, LayerTypeTCP = Some tcp\<rparr>"
    using handlePacket_flags by blast
  have 6: "\<forall>pcs r p. connCloseNotifyChannel (fst (handlePacket pcs r p)) = connCloseNotifyChannel pcs"
    using handlePacket_channel by blast
  show ?thesis by (intro conjI 1 2 3 4 5 6)
qed

text \<open>
  A run: \<open>StartCapture\<close> for the first server, a FIN frame from it handled by a capture
  goroutine, \<open>StopCapture\<close>, and the call's \<open>ctx.Done()\<close> branch. After the FIN frame the call
  is still in its loop and neither branch of its \<open>select\<close> is ready.
\<close>

lemma session_example:
  "\<exists>s1 s2 pcs1.
     run parse0 loginServers0 (init_system rt0) [Call ''Taiwan'', Frame 0 pkt_fin] = Some s1
     \<and> calls s1 = [Looping 0 [0xc0, 0xa8]]
     \<and> pcs_objects (sys_machine s1) 0 = Some pcs1 \<and> \<not> ctx_done pcs1
     \<and> connections pcs1 (flow_key (byte_arrays (mem rt0)) ipl0 tcp0) \<noteq> None
     \<and> step parse0 loginServers0 s1 (Done 0) = None
     \<and> run parse0 loginServers0 (init_system rt0) [Call ''Taiwan'', Frame 0 pkt_fin, Stop, Done 0] = Some s2
     \<and> calls s2 = [Finished (Return None)]
     \<and> pcs_objects (sys_machine s2) 0 = Some (PacketCaptureService_StopCapture pcs1)"
proof -
  define pcsN where "pcsN = NewPacketCaptureService ''219.84.200.54'' 6900"
  define mA where "mA = \<lparr>app = \<lparr>isCapturing = True, packetCaptureService = Some 0\<rparr>,
      pcs_objects = [0 \<mapsto> pcsN], next_pcs = Suc 0, run_time = rt0, stdout = []\<rparr>"
  have cA: "step parse0 loginServers0 (init_system rt0) (Call ''Taiwan'')
      = Some \<lparr>sys_machine = mA, calls = [Looping 0 [0xc0, 0xa8]]\<rparr>"
    by (simp add: step_def StartCapture_enter_def StartCapture_setup_def init_system_def
        loginServers0_def mA_def pcsN_def)
  obtain pcs1 rt1 where hp: "handlePacket pcsN rt0 pkt_fin = (pcs1, rt1)"
    by (cases "handlePacket pcsN rt0 pkt_fin")
  define mB where "mB = mA\<lparr>pcs_objects := (pcs_objects mA)(0 \<mapsto> pcs1), run_time := rt1\<rparr>"
  have cB: "step parse0 loginServers0 \<lparr>sys_machine = mA, calls = [Looping 0 [0xc0, 0xa8]]\<rparr> (Frame 0 pkt_fin)
      = Some \<lparr>sys_machine = mB, calls = [Looping 0 [0xc0, 0xa8]]\<rparr>"
    by (simp add: step_def mB_def hp) (simp add: mA_def hp)
  have nd: "\<not> ctx_done pcs1"
    using handlePacket_config[OF hp] by (simp add: pcsN_def NewPacketCaptureService_def)
  have pN: "pcsN = pcs0" by (simp add: pcsN_def NewPacketCaptureService_def pcs0_def)
  have fl: "handlePacket pcs0 rt0 pkt_fin = handlePacket pcs0 rt0 pkt0"
    using handlePacket_flags[where pcs=pcs0 and rt=rt0 and ipl="Some ipl0" and tcp=tcp0 and f=True and r=False]
    by (simp add: pkt_fin_def pkt0_def tcp0_def)
  have hp0: "handlePacket pcs0 rt0 pkt0 = (pcs1, rt1)" using hp fl pN by simp
  have "(connections pcs1 (flow_key (byte_arrays (mem rt0)) ipl0 tcp0) \<noteq> None) =
      (connections pcs0 (flow_key (byte_arrays (mem rt0)) ipl0 tcp0) \<noteq> None
       \<or> (\<exists>p\<in>set [pkt0]. accepts pcs0 (byte_arrays (mem rt0)) p
             \<and> packet_key (byte_arrays (mem rt0)) p = Some (flow_key (byte_arrays (mem rt0)) ipl0 tcp0)))"
    by (rule handlePackets_dom[OF table_ok_0]) (simp_all add: packet_ok_0 hp0)
  then have rec: "connections pcs1 (flow_key (byte_arrays (mem rt0)) ipl0 tcp0) \<noteq> None"
    using accepts_pkt0 packet_key_examples(1) by simp
  have dn: "step parse0 loginServers0 \<lparr>sys_machine = mB, calls = [Looping 0 [0xc0, 0xa8]]\<rparr> (Done 0) = None"
    using nd by (simp add: step_def select_done_def mB_def)
  define mC where "mC = mB\<lparr>stdout := [''[StopCapture] entering ...''],
      pcs_objects := (pcs_objects mB)(0 \<mapsto> PacketCaptureService_StopCapture pcs1),
      app := \<lparr>isCapturing = False, packetCaptureService = None\<rparr>\<rparr>"
  have cC: "step parse0 loginServers0 \<lparr>sys_machine = mB, calls = [Looping 0 [0xc0, 0xa8]]\<rparr> Stop
      = Some \<lparr>sys_machine = mC, calls = [Looping 0 [0xc0, 0xa8]]\<rparr>"
    by (simp add: step_def StopCapture_def mC_def mB_def mA_def)
  have cD: "step parse0 loginServers0 \<lparr>sys_machine = mC, calls = [Looping 0 [0xc0, 0xa8]]\<rparr> (Done 0)
      = Some \<lparr>sys_machine = mC, calls = [Finished (Return None)]\<rparr>"
    by (simp add: step_def select_done_def mC_def)
  have r1: "run parse0 loginServers0 (init_system rt0) [Call ''Taiwan'', Frame 0 pkt_fin]
      = Some \<lparr>sys_machine = mB, calls = [Looping 0 [0xc0, 0xa8]]\<rparr>"
    by (simp add: cA cB)
  have r2: "run parse0 loginServers0 (init_system rt0) [Call ''Taiwan'', Frame 0 pkt_fin, Stop, Done 0]
      = Some \<lparr>sys_machine = mC, calls = [Finished (Return None)]\<rparr>"
    by (simp add: cA cB cC cD)
  have o1: "pcs_objects mB 0 = Some pcs1" by (simp add: mB_def)
  have o2: "pcs_objects mC 0 = Some (PacketCaptureService_StopCapture pcs1)" by (simp add: mC_def)
  show ?thesis
    using r1 r2 nd rec dn o1 o2
    by (intro exI[of _ "\<lparr>sys_machine = mB, calls = [Looping 0 [0xc0, 0xa8]]\<rparr>"]
              exI[of _ "\<lparr>sys_machine = mC, calls = [Finished (Return None)]\<rparr>"]
              exI[of _ pcs1]) simp
qed

theorem C9_no_close_notification_witness:
  "\<exists>s1 s2 pcs1.
     run parse0 loginServers0 (init_system rt0) [Call ''Taiwan'', Frame 0 pkt_fin] = Some s1
     \<and> calls s1 = [Looping 0 [0xc0, 0xa8]]
     \<and> pcs_objects (sys_machine s1) 0 = Some pcs1
     \<and> connections pcs1 (flow_key (byte_arrays (mem rt0)) ipl0 tcp0) \<noteq> None
     \<and> connCloseNotifyChannel pcs1 = []
     \<and> step parse0 loginServers0 s1 (Receive 0) = None
     \<and> step parse0 loginServers0 s1 (Done 0) = None
     \<and> run parse0 loginServers0 (init_system rt0) [Call ''Taiwan'', Frame 0 pkt_fin, Stop, Done 0] = Some s2
     \<and> calls s2 = [Finished (Return None)]
     \<and> step parse0 loginServers0 s2 (Receive 0) = None"
proof -
  obtain s1 s2 pcs1 where e:
    "run parse0 loginServers0 (init_system rt0) [Call ''Taiwan'', Frame 0 pkt_fin] = Some s1"
    "calls s1 = [Looping 0 [0xc0, 0xa8]]"
    "pcs_objects (sys_machine s1) 0 = Some pcs1"
    "connections pcs1 (flow_key (byte_arrays (mem rt0)) ipl0 tcp0) \<noteq> None"
    "step parse0 loginServers0 s1 (Done 0) = None"
    "run parse0 loginServers0 (init_system rt0) [Call ''Taiwan'', Frame 0 pkt_fin, Stop, Done 0] = Some s2"
    "calls s2 = [Finished (Return None)]"
    using session_example by blast
  note th1 = C9_no_close_notification[OF e(1)]
  note th2 = C9_no_close_notification[OF e(6)]
  have a: "connCloseNotifyChannel pcs1 = []" using th1 e(3) by blast
  have b: "step parse0 loginServers0 s1 (Receive 0) = None" using th1 by blast
  have c: "step parse0 loginServers0 s2 (Receive 0) = None" using th2 by blast
  show ?thesis using e a b c by blast
qed

end
